theory Spec2Isabelle
  imports Main "HOL-Library.Monad_Syntax"
begin

section \<open>Objects and the store\<close>

text \<open>
  The module \<^verbatim>\<open>single_resource_scheduler.pyx\<close> links \<^verbatim>\<open>Task\<close> objects into a
  doubly-linked sequence owned by a \<^verbatim>\<open>Resource\<close>. Objects are mutated in place and
  reached through several references at once, so the model keeps an explicit store:
  every object lives at an address (a natural number), a reference is an
  \<open>nat option\<close> (\<open>None\<close> is Python's \<^verbatim>\<open>None\<close>), and every method takes the store and
  returns the updated one.

  The fields of \<^verbatim>\<open>Task\<close> and of its subclass \<^verbatim>\<open>SchedulingTask\<close> form one record; the store
  remembers the class of every task object (\<open>classes\<close>), which decides the method a
  \<^verbatim>\<open>cpdef\<close> call reaches. For an object of class \<^verbatim>\<open>Task\<close> the six scheduling fields of
  the record are not part of the object and are never read.
  The field \<^verbatim>\<open>next\<close> is called \<open>nxt\<close>; a private field \<^verbatim>\<open>_x\<close> of the source is
  called \<open>u_x\<close>.

  The \<^verbatim>\<open>cdef int\<close> fields and locals hold C integers. The properties hand out Python
  integers, so most arithmetic of the source is exact; a value is converted back when it
  is stored into a \<^verbatim>\<open>cdef int\<close>, and the conversion raises \<^verbatim>\<open>OverflowError\<close> outside the
  C range (\<open>c_int\<close>). Arithmetic between \<^verbatim>\<open>cdef int\<close> values is C arithmetic and wraps
  (\<open>c_wrap\<close>).
\<close>

record task =
  task_id :: string
  nxt :: "nat option"
  previous :: "nat option"
  resource :: "nat option"
  u_duration :: int
  u_target :: int
  u_min_margin_before :: int
  u_dirty :: bool
  u_earliest_start :: int
  u_start :: int

record res =
  resource_id :: string
  head :: "nat option"
  tail :: "nat option"

datatype cls = Task_class | SchedulingTask_class

record state =
  tasks :: "nat \<Rightarrow> task"
  resources :: "nat \<Rightarrow> res"
  classes :: "nat \<Rightarrow> cls"

datatype error = OverflowError | AttributeError | RuntimeError

definition c_int :: "int \<Rightarrow> bool" where
  "c_int v \<longleftrightarrow> - (2 ^ 31) \<le> v \<and> v < 2 ^ 31"

definition c_wrap :: "int \<Rightarrow> int" where
  "c_wrap v = (v + 2 ^ 31) mod 2 ^ 32 - 2 ^ 31"

subsection \<open>Outcomes\<close>

text \<open>
  A call ends by returning a value or by raising an exception; either way it leaves a
  store behind, since everything it assigned before raising stays assigned. An outcome
  is therefore a pair of \<open>error + value\<close> (\<open>Inl\<close> the exception) and the store. A call
  that does not end at all (a loop or a recursion over a cyclic store) has no outcome:
  the methods return an \<open>option\<close>, and \<open>None\<close> stands for not ending.
\<close>

type_synonym 'a outcome = "(error + 'a) \<times> state"

definition ret :: "'a \<Rightarrow> state \<Rightarrow> 'a outcome option" where
  "ret v s = Some (Inr v, s)"

definition raise :: "error \<Rightarrow> state \<Rightarrow> 'a outcome option" where
  "raise e s = Some (Inl e, s)"

text \<open>
  \<open>bind_o m f\<close>: run \<open>m\<close>, and continue with \<open>f\<close> on its value and store unless it raised.
\<close>

definition bind_o ::
    "'a outcome option \<Rightarrow> ('a \<Rightarrow> state \<Rightarrow> 'b outcome option) \<Rightarrow> 'b outcome option" where
  "bind_o m f =
    (case m of
       None \<Rightarrow> None
     | Some (Inl e, s) \<Rightarrow> Some (Inl e, s)
     | Some (Inr v, s) \<Rightarrow> f v s)"

text \<open>The conversion of a Python integer to a \<^verbatim>\<open>cdef int\<close>.\<close>

definition to_c_int :: "int \<Rightarrow> state \<Rightarrow> int outcome option" where
  "to_c_int v s = (if c_int v then ret v s else raise OverflowError s)"

subsection \<open>Field assignments\<close>

definition set_next :: "nat \<Rightarrow> nat option \<Rightarrow> state \<Rightarrow> state" where
  "set_next a v s = s\<lparr>tasks := (tasks s)(a := (tasks s a)\<lparr>nxt := v\<rparr>)\<rparr>"

definition set_previous :: "nat \<Rightarrow> nat option \<Rightarrow> state \<Rightarrow> state" where
  "set_previous a v s = s\<lparr>tasks := (tasks s)(a := (tasks s a)\<lparr>previous := v\<rparr>)\<rparr>"

definition set_resource :: "nat \<Rightarrow> nat option \<Rightarrow> state \<Rightarrow> state" where
  "set_resource a v s = s\<lparr>tasks := (tasks s)(a := (tasks s a)\<lparr>resource := v\<rparr>)\<rparr>"

definition set_dirty :: "nat \<Rightarrow> bool \<Rightarrow> state \<Rightarrow> state" where
  "set_dirty a v s = s\<lparr>tasks := (tasks s)(a := (tasks s a)\<lparr>u_dirty := v\<rparr>)\<rparr>"

definition set_earliest_start :: "nat \<Rightarrow> int \<Rightarrow> state \<Rightarrow> state" where
  "set_earliest_start a v s = s\<lparr>tasks := (tasks s)(a := (tasks s a)\<lparr>u_earliest_start := v\<rparr>)\<rparr>"

definition set_start :: "nat \<Rightarrow> int \<Rightarrow> state \<Rightarrow> state" where
  "set_start a v s = s\<lparr>tasks := (tasks s)(a := (tasks s a)\<lparr>u_start := v\<rparr>)\<rparr>"

definition set_head :: "nat \<Rightarrow> nat option \<Rightarrow> state \<Rightarrow> state" where
  "set_head r v s = s\<lparr>resources := (resources s)(r := (resources s r)\<lparr>head := v\<rparr>)\<rparr>"

definition set_tail :: "nat \<Rightarrow> nat option \<Rightarrow> state \<Rightarrow> state" where
  "set_tail r v s = s\<lparr>resources := (resources s)(r := (resources s r)\<lparr>tail := v\<rparr>)\<rparr>"

text \<open>
  \<open>set_head\<close> and \<open>set_tail\<close> are the assignments \<^verbatim>\<open>self.head = ...\<close> and \<^verbatim>\<open>self.tail = ...\<close>
  inside \<^verbatim>\<open>Resource\<close>, where \<^verbatim>\<open>head\<close> and \<^verbatim>\<open>tail\<close> are C fields of \<^verbatim>\<open>self\<close>.

  Inside \<^verbatim>\<open>Task\<close> the same fields are written as \<^verbatim>\<open>self.resource.head = ...\<close> and
  \<^verbatim>\<open>self.resource.tail = ...\<close>. The field \<^verbatim>\<open>resource\<close> is declared \<^verbatim>\<open>TaskResource\<close>, a class
  without fields, so this is an attribute assignment on a Python object; \<^verbatim>\<open>head\<close> and
  \<^verbatim>\<open>tail\<close> are private \<^verbatim>\<open>cdef\<close> fields of \<^verbatim>\<open>Resource\<close> and no such attribute exists: the
  statement raises \<^verbatim>\<open>AttributeError\<close> and assigns nothing.
\<close>

definition setattr_head :: "nat \<Rightarrow> nat option \<Rightarrow> state \<Rightarrow> unit outcome option" where
  "setattr_head r v s = raise AttributeError s"

definition setattr_tail :: "nat \<Rightarrow> nat option \<Rightarrow> state \<Rightarrow> unit outcome option" where
  "setattr_tail r v s = raise AttributeError s"

section \<open>Class \<^verbatim>\<open>Task\<close>: the link primitives\<close>

text \<open>
  Each statement of the source is one step; every read is from the store as it is at
  that statement, so aliasing between \<^verbatim>\<open>self\<close>, its neighbours and the resource is kept,
  and so is everything assigned before a statement that raises.
  An object used as a condition (\<^verbatim>\<open>if self.next:\<close>) is true when it is not \<^verbatim>\<open>None\<close>.
\<close>

definition Task_init :: "string \<Rightarrow> task" where
  "Task_init tid =
    \<lparr>task_id = tid, nxt = None, previous = None, resource = None,
     u_duration = 0, u_target = 0, u_min_margin_before = 0,
     u_dirty = False, u_earliest_start = 0, u_start = 0\<rparr>"

definition Task_move_out :: "nat \<Rightarrow> state \<Rightarrow> unit outcome option" where
  "Task_move_out self s =
    (case nxt (tasks s self) of
       None \<Rightarrow> ret () s
     | Some n \<Rightarrow>
        let s1 = set_previous n (previous (tasks s self)) s in
        bind_o
          (case previous (tasks s1 self) of
             Some p \<Rightarrow> ret () (set_next p (Some n) s1)
           | None \<Rightarrow> (case resource (tasks s1 self) of
                        Some r \<Rightarrow> setattr_head r (Some n) s1
                      | None \<Rightarrow> ret () s1))
          (\<lambda>_ s2.
             let s3 = set_previous self (Some n) s2;
                 s4 = set_next self (nxt (tasks s3 n)) s3 in
             bind_o
               (case nxt (tasks s4 n) of
                  Some nn \<Rightarrow> ret () (set_previous nn (Some self) s4)
                | None \<Rightarrow> (case resource (tasks s4 self) of
                             Some r \<Rightarrow> setattr_tail r (Some self) s4
                           | None \<Rightarrow> ret () s4))
               (\<lambda>_ s5. ret () (set_next n (Some self) s5))))"

definition Task_move_in :: "nat \<Rightarrow> state \<Rightarrow> unit outcome option" where
  "Task_move_in self s =
    (case previous (tasks s self) of
       None \<Rightarrow> ret () s
     | Some p \<Rightarrow>
        let s1 = set_next p (nxt (tasks s self)) s in
        bind_o
          (case nxt (tasks s1 self) of
             Some n \<Rightarrow> ret () (set_previous n (Some p) s1)
           | None \<Rightarrow> (case resource (tasks s1 self) of
                        Some r \<Rightarrow> setattr_tail r (Some p) s1
                      | None \<Rightarrow> ret () s1))
          (\<lambda>_ s2.
             let s3 = set_next self (Some p) s2;
                 s4 = set_previous self (previous (tasks s3 p)) s3 in
             bind_o
               (case previous (tasks s4 p) of
                  Some pp \<Rightarrow> ret () (set_next pp (Some self) s4)
                | None \<Rightarrow> (case resource (tasks s4 self) of
                             Some r \<Rightarrow> setattr_head r (Some self) s4
                           | None \<Rightarrow> ret () s4))
               (\<lambda>_ s5. ret () (set_previous p (Some self) s5))))"

definition Task_drop :: "nat \<Rightarrow> state \<Rightarrow> unit outcome option" where
  "Task_drop self s =
    bind_o
      (case previous (tasks s self) of
         Some p \<Rightarrow> ret () (set_next p (nxt (tasks s self)) s)
       | None \<Rightarrow> (case resource (tasks s self) of
                    Some r \<Rightarrow> setattr_head r (nxt (tasks s self)) s
                  | None \<Rightarrow> ret () s))
      (\<lambda>_ s1.
         bind_o
           (case nxt (tasks s1 self) of
              Some n \<Rightarrow> ret () (set_previous n (previous (tasks s1 self)) s1)
            | None \<Rightarrow> (case resource (tasks s1 self) of
                         Some r \<Rightarrow> setattr_tail r (previous (tasks s1 self)) s1
                       | None \<Rightarrow> ret () s1))
           (\<lambda>_ s2.
              let s3 = set_previous self None s2;
                  s4 = set_next self None s3 in
              ret () (set_resource self None s4)))"

text \<open>
  \<^verbatim>\<open>Task.insert\<close> begins with \<^verbatim>\<open>task.drop()\<close>, a \<^verbatim>\<open>cpdef\<close> method dispatched on the class
  of \<^verbatim>\<open>task\<close>. The part after that call is \<open>Task_insert_links\<close>; the two are put together
  below, once \<^verbatim>\<open>SchedulingTask.drop\<close> is defined.
\<close>

definition Task_insert_links :: "nat \<Rightarrow> nat \<Rightarrow> state \<Rightarrow> unit outcome option" where
  "Task_insert_links self t s =
    (let s1 = set_resource t (resource (tasks s self)) s in
     bind_o
       (case previous (tasks s1 self) of
          Some p \<Rightarrow> ret () (set_next p (Some t) s1)
        | None \<Rightarrow> (case resource (tasks s1 self) of
                     Some r \<Rightarrow> setattr_head r (Some t) s1
                   | None \<Rightarrow> ret () s1))
       (\<lambda>_ s2.
          let s3 = set_next t (Some self) s2;
              s4 = set_previous t (previous (tasks s3 self)) s3 in
          ret () (set_previous self (Some t) s4)))"

section \<open>Class \<^verbatim>\<open>Resource\<close>\<close>

definition Resource_init :: "string \<Rightarrow> res" where
  "Resource_init rid = \<lparr>resource_id = rid, head = None, tail = None\<rparr>"

definition add_tail :: "nat \<Rightarrow> nat \<Rightarrow> state \<Rightarrow> state" where
  "add_tail self t s =
    (let s1 = set_resource t (Some self) s;
         s2 = set_next t None s1;
         s3 = (case tail (resources s2 self) of
                 Some old_tail \<Rightarrow> set_next old_tail (Some t) (set_previous t (Some old_tail) s2)
               | None \<Rightarrow> set_previous t None s2);
         s4 = set_tail self (Some t) s3
     in if head (resources s4 self) = None then set_head self (Some t) s4 else s4)"

definition add_head :: "nat \<Rightarrow> nat \<Rightarrow> state \<Rightarrow> state" where
  "add_head self t s =
    (let s1 = set_resource t (Some self) s;
         s2 = set_previous t None s1;
         s3 = (case head (resources s2 self) of
                 Some old_head \<Rightarrow> set_previous old_head (Some t) (set_next t (Some old_head) s2)
               | None \<Rightarrow> set_next t None s2);
         s4 = set_head self (Some t) s3
     in if tail (resources s4 self) = None then set_tail self (Some t) s4 else s4)"

text \<open>
  \<^verbatim>\<open>iter_tasks\<close> yields the tasks from \<^verbatim>\<open>head\<close> along \<^verbatim>\<open>next\<close>. The loop runs while the
  cursor is not \<^verbatim>\<open>None\<close>; on a cyclic store it does not end, which is the value \<open>None\<close>.
\<close>

partial_function (option) iter_from :: "state \<Rightarrow> nat option \<Rightarrow> nat list option" where
  "iter_from s t =
    (case t of
       None \<Rightarrow> Some []
     | Some a \<Rightarrow> Option.bind (iter_from s (nxt (tasks s a))) (\<lambda>ys. Some (a # ys)))"

declare iter_from.simps [code]

definition iter_tasks :: "nat \<Rightarrow> state \<Rightarrow> nat list option" where
  "iter_tasks self s = iter_from s (head (resources s self))"

section \<open>Class \<^verbatim>\<open>SchedulingTask\<close>\<close>

text \<open>
  The constructor converts its three numeric arguments to C \<^verbatim>\<open>int\<close>; a value that does
  not fit raises \<^verbatim>\<open>OverflowError\<close>. Nothing else in the constructor can fail.
\<close>

definition SchedulingTask_init :: "string \<Rightarrow> int \<Rightarrow> int \<Rightarrow> int \<Rightarrow> error + task" where
  "SchedulingTask_init tid duration target min_margin_before =
    (if c_int duration \<and> c_int target \<and> c_int min_margin_before then
       Inr \<lparr>task_id = tid, nxt = None, previous = None, resource = None,
            u_duration = duration, u_target = target,
            u_min_margin_before = min_margin_before,
            u_dirty = True, u_earliest_start = 0, u_start = target\<rparr>
     else Inl OverflowError)"

partial_function (option) invalidate :: "nat \<Rightarrow> state \<Rightarrow> unit outcome option" where
  "invalidate self s =
    (case nxt (tasks (set_dirty self True s) self) of
       Some next_task \<Rightarrow> invalidate next_task (set_dirty self True s)
     | None \<Rightarrow> Some (Inr (), set_dirty self True s))"

declare invalidate.simps [code]

text \<open>
  \<^verbatim>\<open>calculate\<close> reads \<^verbatim>\<open>prev_task.earliest_stop\<close>, a property that reads
  \<^verbatim>\<open>prev_task.earliest_start\<close>, which calls \<^verbatim>\<open>prev_task.calculate()\<close> when the predecessor
  is dirty. The three are mutually recursive in the source; the definition of
  \<open>calculate\<close> carries the two property reads inline, and \<open>calculate_unfold\<close> below
  restates it through the properties. The sum \<^verbatim>\<open>prev_task.earliest_stop +
  self._min_margin_before\<close> is a Python integer; storing it into \<^verbatim>\<open>_earliest_start\<close>
  raises \<^verbatim>\<open>OverflowError\<close> when it does not fit. The \<^verbatim>\<open>max\<close> of the next line is taken on
  two C integers. The \<^verbatim>\<open>print\<close> call is an output only.
\<close>

partial_function (option) calculate :: "nat \<Rightarrow> state \<Rightarrow> unit outcome option" where
  "calculate self s =
    (case previous (tasks s self) of
       Some prev_task \<Rightarrow>
         Option.bind
           (if u_dirty (tasks s prev_task) then calculate prev_task s else Some (Inr (), s))
           (\<lambda>(r, s1).
              case r of
                Inl e \<Rightarrow> Some (Inl e, s1)
              | Inr _ \<Rightarrow>
                  if c_int (u_earliest_start (tasks s1 prev_task) + u_duration (tasks s1 prev_task)
                              + u_min_margin_before (tasks s1 self))
                  then
                    let s2 = set_earliest_start self
                               (u_earliest_start (tasks s1 prev_task)
                                  + u_duration (tasks s1 prev_task)
                                  + u_min_margin_before (tasks s1 self)) s1;
                        s3 = set_start self
                               (max (u_earliest_start (tasks s2 self)) (u_start (tasks s2 self))) s2
                    in Some (Inr (), set_dirty self False s3)
                  else Some (Inl OverflowError, s1))
     | None \<Rightarrow> Some (Inr (), set_dirty self False (set_earliest_start self 0 s)))"

declare calculate.simps [code]

definition earliest_start :: "nat \<Rightarrow> state \<Rightarrow> int outcome option" where
  "earliest_start self s =
    bind_o (if u_dirty (tasks s self) then calculate self s else ret () s)
      (\<lambda>_ s1. ret (u_earliest_start (tasks s1 self)) s1)"

definition earliest_stop :: "nat \<Rightarrow> state \<Rightarrow> int outcome option" where
  "earliest_stop self s =
    bind_o (earliest_start self s) (\<lambda>es s1. ret (es + u_duration (tasks s1 self)) s1)"

definition start :: "nat \<Rightarrow> state \<Rightarrow> int outcome option" where
  "start self s =
    bind_o (if u_dirty (tasks s self) then calculate self s else ret () s)
      (\<lambda>_ s1. ret (u_start (tasks s1 self)) s1)"

text \<open>
  The setter: \<^verbatim>\<open>max(self.earliest_start, value)\<close> is a Python integer, converted when it
  is stored into \<^verbatim>\<open>_start\<close>.
\<close>

definition start_setter :: "nat \<Rightarrow> int \<Rightarrow> state \<Rightarrow> unit outcome option" where
  "start_setter self v s =
    bind_o (earliest_start self s) (\<lambda>es s1.
      bind_o (to_c_int (max es v) s1) (\<lambda>w s2. ret () (set_start self w s2)))"

text \<open>
  The four overrides call the base method through a zero-argument \<^verbatim>\<open>super()\<close>. Inside a
  \<^verbatim>\<open>cpdef\<close> method that call raises \<^verbatim>\<open>RuntimeError\<close>, so the base method is never
  reached from here: \<^verbatim>\<open>move_out\<close>, \<^verbatim>\<open>move_in\<close> and \<^verbatim>\<open>insert\<close> raise before anything is
  changed, and \<^verbatim>\<open>drop\<close> raises after \<^verbatim>\<open>invalidate\<close> has run.
\<close>

definition super_call :: "state \<Rightarrow> unit outcome option" where
  "super_call s = raise RuntimeError s"

definition SchedulingTask_move_out :: "nat \<Rightarrow> state \<Rightarrow> unit outcome option" where
  "SchedulingTask_move_out self s =
    bind_o (super_call s) (\<lambda>_ s1. bind_o (Task_move_out self s1) (\<lambda>_ s2. invalidate self s2))"

definition SchedulingTask_move_in :: "nat \<Rightarrow> state \<Rightarrow> unit outcome option" where
  "SchedulingTask_move_in self s =
    bind_o (super_call s) (\<lambda>_ s1. bind_o (Task_move_in self s1) (\<lambda>_ s2. invalidate self s2))"

definition SchedulingTask_drop :: "nat \<Rightarrow> state \<Rightarrow> unit outcome option" where
  "SchedulingTask_drop self s =
    bind_o (invalidate self s) (\<lambda>_ s1. bind_o (super_call s1) (\<lambda>_ s2. Task_drop self s2))"

text \<open>
  A call \<^verbatim>\<open>t.drop()\<close> on an object known only as a \<^verbatim>\<open>Task\<close> reaches the method of the
  object's own class.
\<close>

definition call_drop :: "nat \<Rightarrow> state \<Rightarrow> unit outcome option" where
  "call_drop t s =
    (case classes s t of
       Task_class \<Rightarrow> Task_drop t s
     | SchedulingTask_class \<Rightarrow> SchedulingTask_drop t s)"

definition Task_insert :: "nat \<Rightarrow> nat \<Rightarrow> state \<Rightarrow> unit outcome option" where
  "Task_insert self t s = bind_o (call_drop t s) (\<lambda>_ s1. Task_insert_links self t s1)"

definition SchedulingTask_insert :: "nat \<Rightarrow> nat \<Rightarrow> state \<Rightarrow> unit outcome option" where
  "SchedulingTask_insert self t s =
    bind_o (super_call s) (\<lambda>_ s1. bind_o (Task_insert self t s1) (\<lambda>_ s2. invalidate t s2))"

definition call_move_out :: "nat \<Rightarrow> state \<Rightarrow> unit outcome option" where
  "call_move_out t s =
    (case classes s t of
       Task_class \<Rightarrow> Task_move_out t s
     | SchedulingTask_class \<Rightarrow> SchedulingTask_move_out t s)"

definition call_move_in :: "nat \<Rightarrow> state \<Rightarrow> unit outcome option" where
  "call_move_in t s =
    (case classes s t of
       Task_class \<Rightarrow> Task_move_in t s
     | SchedulingTask_class \<Rightarrow> SchedulingTask_move_in t s)"

definition call_insert :: "nat \<Rightarrow> nat \<Rightarrow> state \<Rightarrow> unit outcome option" where
  "call_insert self t s =
    (case classes s self of
       Task_class \<Rightarrow> Task_insert self t s
     | SchedulingTask_class \<Rightarrow> SchedulingTask_insert self t s)"

section \<open>The sweeps\<close>

text \<open>
  One iteration of the loop of \<^verbatim>\<open>schedule_forward\<close> for the task \<open>a\<close>, with the running
  \<^verbatim>\<open>score\<close>; it returns the new score. The score is a \<^verbatim>\<open>cdef int\<close>: the sum \<^verbatim>\<open>score +
  max(0, t.start - t.target)\<close> is a Python integer and is converted when it is stored.
\<close>

definition schedule_forward_body :: "nat \<Rightarrow> int \<Rightarrow> state \<Rightarrow> int outcome option" where
  "schedule_forward_body a score s =
    bind_o
      (case previous (tasks s a) of
         Some prev \<Rightarrow>
           bind_o (start prev s) (\<lambda>ps s1.
           bind_o (start a s1) (\<lambda>ts s2.
             start_setter a
               (max (ps + u_duration (tasks s1 prev) + u_min_margin_before (tasks s1 a)) ts) s2))
       | None \<Rightarrow> ret () s)
      (\<lambda>_ s3.
         bind_o (start a s3) (\<lambda>ts s4.
           to_c_int (score + max 0 (ts - u_target (tasks s4 a))) s4))"

partial_function (option) schedule_forward_loop ::
    "nat option \<Rightarrow> int \<Rightarrow> state \<Rightarrow> int outcome option" where
  "schedule_forward_loop t score s =
    (case t of
       None \<Rightarrow> Some (Inr score, s)
     | Some a \<Rightarrow>
         (case schedule_forward_body a score s of
            None \<Rightarrow> None
          | Some (Inl e, s1) \<Rightarrow> Some (Inl e, s1)
          | Some (Inr score1, s1) \<Rightarrow> schedule_forward_loop (nxt (tasks s1 a)) score1 s1))"

declare schedule_forward_loop.simps [code]

definition schedule_forward :: "nat \<Rightarrow> state \<Rightarrow> int outcome option" where
  "schedule_forward t s = schedule_forward_loop (Some t) 0 s"

text \<open>One iteration of the loop of \<^verbatim>\<open>schedule_backward\<close> for the task \<open>a\<close>.\<close>

definition schedule_backward_body :: "nat \<Rightarrow> state \<Rightarrow> unit outcome option" where
  "schedule_backward_body a s =
    (case nxt (tasks s a) of
       Some next_task \<Rightarrow>
         bind_o (start next_task s) (\<lambda>ns s1.
           start_setter a
             (min (u_target (tasks s a))
                  (ns - u_min_margin_before (tasks s1 next_task) - u_duration (tasks s1 a))) s1)
     | None \<Rightarrow> start_setter a (u_target (tasks s a)) s)"

partial_function (option) schedule_backward_loop ::
    "nat option \<Rightarrow> state \<Rightarrow> unit outcome option" where
  "schedule_backward_loop t s =
    (case t of
       None \<Rightarrow> Some (Inr (), s)
     | Some a \<Rightarrow>
         (case schedule_backward_body a s of
            None \<Rightarrow> None
          | Some (Inl e, s1) \<Rightarrow> Some (Inl e, s1)
          | Some (Inr _, s1) \<Rightarrow> schedule_backward_loop (previous (tasks s1 a)) s1))"

declare schedule_backward_loop.simps [code]

definition schedule_backward :: "nat \<Rightarrow> state \<Rightarrow> unit outcome option" where
  "schedule_backward t s = schedule_backward_loop (Some t) s"

section \<open>Local search\<close>

text \<open>
  The four costs are \<^verbatim>\<open>cdef int\<close> locals, each converted from a Python integer;
  \<^verbatim>\<open>improvement\<close> is computed from them in C arithmetic. The call \<^verbatim>\<open>task.move_in()\<close> is on
  a variable declared \<^verbatim>\<open>SchedulingTask\<close>. Reading \<^verbatim>\<open>next_task.start\<close> on \<^verbatim>\<open>None\<close> raises
  \<^verbatim>\<open>AttributeError\<close>.
\<close>

definition improvement_move_in :: "nat \<Rightarrow> bool \<Rightarrow> state \<Rightarrow> int outcome option" where
  "improvement_move_in task execute s =
    (case previous (tasks s task) of
       None \<Rightarrow> ret 0 s
     | Some t1 \<Rightarrow>
         bind_o (start t1 s) (\<lambda>t1_start s1.
         bind_o (to_c_int (max 0 (t1_start - u_target (tasks s1 t1))) s1) (\<lambda>t1_cs s1.
         bind_o (start task s1) (\<lambda>t2_start s2.
         bind_o (to_c_int (max 0 (t2_start - u_target (tasks s2 task))) s2) (\<lambda>t2_cs s2.
         bind_o (earliest_start t1 s2) (\<lambda>t1_es s3.
         bind_o (to_c_int (max 0 (t1_es + u_min_margin_before (tasks s3 task)
                                    + u_duration (tasks s3 task) - u_target (tasks s3 t1))) s3)
           (\<lambda>t1_as s3.
         bind_o (earliest_start t1 s3) (\<lambda>t1_es' s4.
         bind_o (to_c_int (max 0 (t1_es' - u_min_margin_before (tasks s4 t1)
                                    + u_min_margin_before (tasks s4 task)
                                    - u_target (tasks s4 task))) s4)
           (\<lambda>t2_as s4.
           let improvement = c_wrap (t1_as + t2_as - t1_cs - t2_cs) in
           if execute \<and> improvement < 0 then
             bind_o (SchedulingTask_move_in task s4) (\<lambda>_ s5.
               case nxt (tasks s5 task) of
                 None \<Rightarrow> bind_o (earliest_start task s5) (\<lambda>_ s6. raise AttributeError s6)
               | Some next_task \<Rightarrow>
                   bind_o (earliest_start next_task s5) (\<lambda>n_es s6.
                   bind_o (start task s6) (\<lambda>t_start s7.
                   bind_o (start_setter next_task
                             (max (n_es - u_min_margin_before (tasks s6 next_task))
                                  (min (u_target (tasks s6 task)) t_start)) s7) (\<lambda>_ s8.
                   bind_o (earliest_start task s8) (\<lambda>t_es s9.
                   bind_o (start next_task s9) (\<lambda>n_start s10.
                   bind_o (start_setter task
                             (max t_es
                                  (min (n_start - u_min_margin_before (tasks s10 next_task)
                                          - u_duration (tasks s10 task))
                                       (u_target (tasks s10 task)))) s10) (\<lambda>_ s11.
                     ret improvement s11)))))))
           else ret improvement s4)))))))))"

section \<open>Class \<^verbatim>\<open>SchedulingResource\<close>\<close>

definition schedule :: "nat \<Rightarrow> state \<Rightarrow> int outcome option" where
  "schedule self s =
    bind_o
      (case tail (resources s self) of
         Some tail_task \<Rightarrow> schedule_backward tail_task s
       | None \<Rightarrow> ret () s)
      (\<lambda>_ s1.
         case head (resources s1 self) of
           Some head_task \<Rightarrow> schedule_forward head_task s1
         | None \<Rightarrow> ret 0 s1)"

text \<open>
  The loop of \<^verbatim>\<open>improve\<close>. The list \<open>steps\<close> is not in the source: it records the value of
  \<^verbatim>\<open>step_improvement\<close> of every iteration in which \<^verbatim>\<open>improvement_move_in\<close> returned, in
  order, so that the number of evaluations of the exchange gain can be stated. It is
  never read by the loop. \<^verbatim>\<open>improvement += step_improvement\<close> is C arithmetic.
\<close>

partial_function (option) improve_loop ::
    "nat option \<Rightarrow> int \<Rightarrow> int list \<Rightarrow> state \<Rightarrow> (int list \<times> int outcome) option" where
  "improve_loop t improvement steps s =
    (case t of
       None \<Rightarrow> Some (steps, Inr improvement, s)
     | Some a \<Rightarrow>
         (case improvement_move_in a True s of
            None \<Rightarrow> None
          | Some (Inl e, s1) \<Rightarrow> Some (steps, Inl e, s1)
          | Some (Inr step_improvement, s1) \<Rightarrow>
              if step_improvement < 0 then
                improve_loop (Some a) (c_wrap (improvement + step_improvement))
                  (steps @ [step_improvement]) s1
              else
                improve_loop (previous (tasks s1 a)) improvement
                  (steps @ [step_improvement]) s1))"

declare improve_loop.simps [code]

definition improve_run :: "nat \<Rightarrow> state \<Rightarrow> (int list \<times> int outcome) option" where
  "improve_run self s =
    (case tail (resources s self) of
       None \<Rightarrow> Some ([], Inr 0, s)
     | Some t \<Rightarrow> improve_loop (Some t) 0 [] s)"

definition improve :: "nat \<Rightarrow> state \<Rightarrow> int outcome option" where
  "improve self s = map_option snd (improve_run self s)"


section \<open>Reading a resource\<close>

text \<open>
  The total lateness of a resource, read the way a caller reads it: the tasks in
  \<^verbatim>\<open>iter_tasks\<close> order, \<^verbatim>\<open>max(0, t.start - t.target)\<close> for each through the \<^verbatim>\<open>start\<close>
  property, summed as Python integers. \<open>None\<close> when a read does not return.
\<close>

fun lateness_sum :: "nat list \<Rightarrow> state \<Rightarrow> int option" where
  "lateness_sum [] s = Some 0"
| "lateness_sum (a # as) s =
     (case start a s of
        Some (Inr v, s1) \<Rightarrow>
          map_option (\<lambda>w. max 0 (v - u_target (tasks s1 a)) + w) (lateness_sum as s1)
      | _ \<Rightarrow> None)"

definition total_lateness :: "nat \<Rightarrow> state \<Rightarrow> int option" where
  "total_lateness r s = Option.bind (iter_tasks r s) (\<lambda>xs. lateness_sum xs s)"

text \<open>The walk from \<^verbatim>\<open>tail\<close> along \<^verbatim>\<open>previous\<close>, the mirror image of \<^verbatim>\<open>iter_tasks\<close>.\<close>

partial_function (option) iter_back_from :: "state \<Rightarrow> nat option \<Rightarrow> nat list option" where
  "iter_back_from s t =
    (case t of
       None \<Rightarrow> Some []
     | Some a \<Rightarrow> Option.bind (iter_back_from s (previous (tasks s a))) (\<lambda>ys. Some (a # ys)))"

declare iter_back_from.simps [code]

definition iter_back :: "nat \<Rightarrow> state \<Rightarrow> nat list option" where
  "iter_back self s = iter_back_from s (tail (resources s self))"

definition task_at :: "nat \<Rightarrow> state \<Rightarrow> task" where
  "task_at a s = tasks s a"

text \<open>The two halves of what a call leaves behind: its result and the store.\<close>

definition result :: "'a outcome option \<Rightarrow> (error + 'a) option" where
  "result m = map_option fst m"

definition after :: "'a outcome option \<Rightarrow> state option" where
  "after m = map_option snd m"

section \<open>Building stores\<close>

text \<open>
  A store in which nothing has been constructed yet: every resource is as
  \<^verbatim>\<open>Resource.__init__\<close> leaves it and every task address holds a detached plain task.
\<close>

definition store0 :: state where
  "store0 =
    \<lparr>tasks = (\<lambda>a. Task_init []),
     resources = (\<lambda>r. Resource_init []),
     classes = (\<lambda>a. Task_class)\<rparr>"

text \<open>\<^verbatim>\<open>Task(tid)\<close> and \<^verbatim>\<open>SchedulingTask(tid, d, T, m)\<close>, placed at address \<open>a\<close>.\<close>

definition new_plain_task :: "nat \<Rightarrow> string \<Rightarrow> state \<Rightarrow> state" where
  "new_plain_task a tid s =
     s\<lparr>tasks := (tasks s)(a := Task_init tid), classes := (classes s)(a := Task_class)\<rparr>"

definition new_task :: "nat \<Rightarrow> string \<Rightarrow> int \<Rightarrow> int \<Rightarrow> int \<Rightarrow> state \<Rightarrow> state option" where
  "new_task a tid d T m s =
    (case SchedulingTask_init tid d T m of
       Inr t \<Rightarrow> Some (s\<lparr>tasks := (tasks s)(a := t),
                        classes := (classes s)(a := SchedulingTask_class)\<rparr>)
     | Inl e \<Rightarrow> None)"

text \<open>
  Resource 0 holding task A (address 0) followed by task B (address 1), both freshly
  constructed and attached with \<^verbatim>\<open>add_tail\<close>: as scheduling tasks with the given
  duration, target and margin, and as plain tasks.
\<close>

definition two_tasks :: "int \<Rightarrow> int \<Rightarrow> int \<Rightarrow> int \<Rightarrow> int \<Rightarrow> int \<Rightarrow> state option" where
  "two_tasks d1 T1 m1 d2 T2 m2 =
    do { s1 \<leftarrow> new_task 0 ''A'' d1 T1 m1 store0;
         s2 \<leftarrow> new_task 1 ''B'' d2 T2 m2 s1;
         Some (add_tail 0 1 (add_tail 0 0 s2)) }"

definition two_plain_tasks :: state where
  "two_plain_tasks =
     add_tail 0 1 (add_tail 0 0 (new_plain_task 1 ''B'' (new_plain_task 0 ''A'' store0)))"

definition scheduled :: "state option \<Rightarrow> state option" where
  "scheduled m = after (Option.bind m (schedule 0))"

text \<open>
  The store that \<open>two_tasks d1 T1 0 d2 T2 0\<close> builds, written out, and three instances:
  a long task before a short one, the same with a later target for the second, and
  a short task before a long one.
\<close>

definition queue :: "int \<Rightarrow> int \<Rightarrow> int \<Rightarrow> int \<Rightarrow> state" where
  "queue d1 T1 d2 T2 =
     add_tail 0 1 (add_tail 0 0
       (store0\<lparr>tasks := (tasks store0)
          (0 := \<lparr>task_id = ''A'', nxt = None, previous = None, resource = None,
                 u_duration = d1, u_target = T1, u_min_margin_before = 0,
                 u_dirty = True, u_earliest_start = 0, u_start = T1\<rparr>,
           1 := \<lparr>task_id = ''B'', nxt = None, previous = None, resource = None,
                 u_duration = d2, u_target = T2, u_min_margin_before = 0,
                 u_dirty = True, u_earliest_start = 0, u_start = T2\<rparr>),
         classes := (classes store0)(0 := SchedulingTask_class, 1 := SchedulingTask_class)\<rparr>))"

definition queue_AB :: state where
  "queue_AB = queue 5 0 1 0"

definition queue_late :: state where
  "queue_late = queue 10 0 1 7"

definition queue_short_first :: state where
  "queue_short_first = queue 1 0 5 0"

section \<open>Vocabulary of the statements\<close>

text \<open>The link fields of a store, as functions.\<close>

definition nexts :: "state \<Rightarrow> nat \<Rightarrow> nat option" where
  "nexts s a = nxt (tasks s a)"

definition prevs :: "state \<Rightarrow> nat \<Rightarrow> nat option" where
  "prevs s a = previous (tasks s a)"

definition owners :: "state \<Rightarrow> nat \<Rightarrow> nat option" where
  "owners s a = resource (tasks s a)"

definition heads :: "state \<Rightarrow> nat \<Rightarrow> nat option" where
  "heads s r = head (resources s r)"

definition tails :: "state \<Rightarrow> nat \<Rightarrow> nat option" where
  "tails s r = tail (resources s r)"

text \<open>
  \<open>walk h x as y\<close>: following the link \<open>h\<close> from the reference \<open>x\<close> visits exactly the
  addresses \<open>as\<close> and ends at the reference \<open>y\<close>.
\<close>

primrec walk :: "(nat \<Rightarrow> nat option) \<Rightarrow> nat option \<Rightarrow> nat list \<Rightarrow> nat option \<Rightarrow> bool" where
  "walk h x [] y \<longleftrightarrow> x = y"
| "walk h x (a # as) y \<longleftrightarrow> x = Some a \<and> walk h (h a) as y"

text \<open>
  \<open>chain s r xs\<close>: the resource \<open>r\<close> holds exactly the tasks \<open>xs\<close>, in this order: they
  are distinct, \<^verbatim>\<open>head\<close> and \<^verbatim>\<open>next\<close> lead through \<open>xs\<close> to \<^verbatim>\<open>None\<close>, \<^verbatim>\<open>tail\<close> and
  \<^verbatim>\<open>previous\<close> lead through the reverse of \<open>xs\<close> to \<^verbatim>\<open>None\<close>, and every member refers to
  \<open>r\<close>.
\<close>

definition chain :: "state \<Rightarrow> nat \<Rightarrow> nat list \<Rightarrow> bool" where
  "chain s r xs \<longleftrightarrow>
     distinct xs
     \<and> walk (nexts s) (heads s r) xs None
     \<and> walk (prevs s) (tails s r) (rev xs) None
     \<and> (\<forall>t\<in>set xs. owners s t = Some r)"

text \<open>
  The sweeps and the local search are declared on \<^verbatim>\<open>SchedulingTask\<close> objects; the
  statements about them are about chains of such objects.
\<close>

definition scheduling_chain :: "state \<Rightarrow> nat \<Rightarrow> nat list \<Rightarrow> bool" where
  "scheduling_chain s r xs \<longleftrightarrow>
     chain s r xs \<and> (\<forall>t\<in>set xs. classes s t = SchedulingTask_class)"

definition first_of :: "nat list \<Rightarrow> nat option" where
  "first_of xs = (case xs of [] \<Rightarrow> None | x # _ \<Rightarrow> Some x)"

definition last_of :: "nat list \<Rightarrow> nat option" where
  "last_of xs = (if xs = [] then None else Some (last xs))"

text \<open>
  \<open>ends m R Q E\<close>: the call \<open>m\<close> ends; the store it leaves satisfies \<open>R\<close>; when it
  returns a value \<open>v\<close>, \<open>Q v\<close> holds of that store, and when it raises \<open>e\<close>, \<open>E e\<close> holds.
\<close>

definition ends ::
    "'a outcome option \<Rightarrow> (state \<Rightarrow> bool) \<Rightarrow> ('a \<Rightarrow> state \<Rightarrow> bool) \<Rightarrow> (error \<Rightarrow> bool) \<Rightarrow> bool" where
  "ends m R Q E \<longleftrightarrow>
     (\<exists>res s'. m = Some (res, s') \<and> R s' \<and> (case res of Inr v \<Rightarrow> Q v s' | Inl e \<Rightarrow> E e))"

text \<open>
  \<open>timing_step A s s'\<close>: from \<open>s\<close> to \<open>s'\<close> only the cached timing fields (\<^verbatim>\<open>_dirty\<close>,
  \<^verbatim>\<open>_earliest_start\<close>, \<^verbatim>\<open>_start\<close>) of tasks in \<open>A\<close> have changed, and a task that was
  clean is still clean with the same earliest start. \<open>calc_step\<close> adds that a clean
  task has not changed at all, \<open>starts_only\<close> that only \<^verbatim>\<open>_start\<close> fields have changed.
\<close>

definition timing_step :: "nat set \<Rightarrow> state \<Rightarrow> state \<Rightarrow> bool" where
  "timing_step A s s' \<longleftrightarrow>
     resources s' = resources s \<and> classes s' = classes s
     \<and> (\<forall>a. task_id (tasks s' a) = task_id (tasks s a)
            \<and> nxt (tasks s' a) = nxt (tasks s a)
            \<and> previous (tasks s' a) = previous (tasks s a)
            \<and> resource (tasks s' a) = resource (tasks s a)
            \<and> u_duration (tasks s' a) = u_duration (tasks s a)
            \<and> u_target (tasks s' a) = u_target (tasks s a)
            \<and> u_min_margin_before (tasks s' a) = u_min_margin_before (tasks s a))
     \<and> (\<forall>a. a \<notin> A \<longrightarrow> tasks s' a = tasks s a)
     \<and> (\<forall>a. \<not> u_dirty (tasks s a) \<longrightarrow>
            \<not> u_dirty (tasks s' a)
            \<and> u_earliest_start (tasks s' a) = u_earliest_start (tasks s a))"

definition calc_step :: "nat set \<Rightarrow> state \<Rightarrow> state \<Rightarrow> bool" where
  "calc_step A s s' \<longleftrightarrow>
     timing_step A s s' \<and> (\<forall>a. \<not> u_dirty (tasks s a) \<longrightarrow> tasks s' a = tasks s a)"

definition starts_only :: "nat set \<Rightarrow> state \<Rightarrow> state \<Rightarrow> bool" where
  "starts_only A s s' \<longleftrightarrow>
     timing_step A s s'
     \<and> (\<forall>a. u_dirty (tasks s' a) = u_dirty (tasks s a)
            \<and> u_earliest_start (tasks s' a) = u_earliest_start (tasks s a))"

definition clean_on :: "state \<Rightarrow> nat list \<Rightarrow> bool" where
  "clean_on s xs \<longleftrightarrow> (\<forall>t\<in>set xs. \<not> u_dirty (tasks s t))"

text \<open>
  What the backward sweep establishes on the tasks \<open>xs\<close> (in chain order, the last one
  being the tail): the start of the tail is its target, the start of any other task
  is the smaller of its target and the latest start that leaves room before its
  successor, and each is raised to the task's earliest start, as the setter does.
\<close>

fun backward_ok :: "state \<Rightarrow> nat list \<Rightarrow> bool" where
  "backward_ok s [] \<longleftrightarrow> True"
| "backward_ok s [t] \<longleftrightarrow>
     u_start (tasks s t) = max (u_earliest_start (tasks s t)) (u_target (tasks s t))"
| "backward_ok s (t # n # bs) \<longleftrightarrow>
     u_start (tasks s t) =
       max (u_earliest_start (tasks s t))
           (min (u_target (tasks s t))
                (u_start (tasks s n) - u_min_margin_before (tasks s n) - u_duration (tasks s t)))
     \<and> backward_ok s (n # bs)"

text \<open>The lateness of one task, from its stored fields.\<close>

definition lateness :: "state \<Rightarrow> nat \<Rightarrow> int" where
  "lateness s t = max 0 (u_start (tasks s t) - u_target (tasks s t))"


section \<open>Rules for outcomes\<close>

text \<open>
  How \<open>ends\<close> follows the structure of a method body: a return, a raise, a
  conversion, and one statement after another.
\<close>

lemma bind_o_simps [simp]:
  "bind_o None f = None"
  "bind_o (Some (Inl e, s)) f = Some (Inl e, s)"
  "bind_o (Some (Inr v, s)) f = f v s"
  "bind_o (ret v s) f = f v s"
  "bind_o (raise e s) f = raise e s"
  by (simp_all add: bind_o_def ret_def raise_def)

lemma ends_ret: "R s \<Longrightarrow> Q v s \<Longrightarrow> ends (ret v s) R Q E"
  by (simp add: ends_def ret_def)

lemma ends_raise: "R s \<Longrightarrow> E e \<Longrightarrow> ends (raise e s) R Q E"
  by (simp add: ends_def raise_def)

lemma ends_Some_Inr: "R s \<Longrightarrow> Q v s \<Longrightarrow> ends (Some (Inr v, s)) R Q E"
  by (simp add: ends_def)

lemma ends_Some_Inl: "R s \<Longrightarrow> E e \<Longrightarrow> ends (Some (Inl e, s)) R Q E"
  by (simp add: ends_def)

lemma ends_bind:
  assumes "ends m R1 Q1 E"
    and "\<And>s1. R1 s1 \<Longrightarrow> R s1"
    and "\<And>v s1. R1 s1 \<Longrightarrow> Q1 v s1 \<Longrightarrow> ends (f v s1) R Q E"
  shows "ends (bind_o m f) R Q E"
proof -
  from assms(1) obtain res s1 where m: "m = Some (res, s1)" "R1 s1"
    "case res of Inr v \<Rightarrow> Q1 v s1 | Inl e \<Rightarrow> E e"
    by (auto simp: ends_def)
  show ?thesis
  proof (cases res)
    case (Inl e)
    with m assms(2) show ?thesis by (simp add: ends_def)
  next
    case (Inr v)
    with m assms(3) [of s1 v] show ?thesis by simp
  qed
qed

lemma ends_weaken:
  assumes "ends m R Q E"
    and "\<And>s. R s \<Longrightarrow> R' s"
    and "\<And>v s. R s \<Longrightarrow> Q v s \<Longrightarrow> Q' v s"
    and "\<And>e. E e \<Longrightarrow> E' e"
  shows "ends m R' Q' E'"
proof -
  from assms(1) obtain res s1 where m: "m = Some (res, s1)" "R s1"
    "case res of Inr v \<Rightarrow> Q v s1 | Inl e \<Rightarrow> E e"
    by (auto simp: ends_def)
  show ?thesis
  proof (cases res)
    case (Inl e)
    with m assms(2,4) show ?thesis by (simp add: ends_def)
  next
    case (Inr v)
    with m assms(2,3) show ?thesis by (simp add: ends_def)
  qed
qed

lemma ends_to_c_int:
  assumes "R s" and "c_int v \<Longrightarrow> Q v s" and "E OverflowError"
  shows "ends (to_c_int v s) R Q E"
  using assms by (simp add: to_c_int_def ends_ret ends_raise)

lemma endsE:
  assumes "ends m R Q E"
  obtains res s' where "m = Some (res, s')" "R s'" "case res of Inr v \<Rightarrow> Q v s' | Inl e \<Rightarrow> E e"
  using assms by (auto simp: ends_def)

section \<open>Walks and chains\<close>

lemma fold_fields:
  "nxt (tasks s a) = nexts s a" "previous (tasks s a) = prevs s a"
  "resource (tasks s a) = owners s a" "head (resources s r) = heads s r"
  "tail (resources s r) = tails s r"
  by (simp_all add: nexts_def prevs_def owners_def heads_def tails_def)

lemma walk_append: "walk h x (as @ bs) z \<longleftrightarrow> (\<exists>y. walk h x as y \<and> walk h y bs z)"
  by (induction as arbitrary: x) auto

lemma walk_None [simp]: "walk h None as y \<longleftrightarrow> as = [] \<and> y = None"
  by (cases as) auto

lemma first_of_simps [simp]: "first_of [] = None" "first_of (x # xs) = Some x"
  by (simp_all add: first_of_def)

lemma last_of_simps [simp]:
  "last_of [] = None" "last_of (x # xs) = Some (last (x # xs))"
  "last_of (xs @ y # ys) = Some (last (y # ys))"
  by (simp_all add: last_of_def)

lemma chain_mid:
  assumes "chain s r (as @ t # bs)"
  shows "nexts s t = first_of bs" and "prevs s t = last_of as" and "owners s t = Some r"
proof -
  from assms have n: "walk (nexts s) (nexts s t) bs None"
    and p: "walk (prevs s) (prevs s t) (rev as) None"
    by (auto simp: chain_def walk_append)
  show "nexts s t = first_of bs"
    using n by (cases bs) auto
  show "prevs s t = last_of as"
    using p by (cases as rule: rev_cases) auto
  show "owners s t = Some r"
    using assms by (simp add: chain_def)
qed

lemma chain_ends:
  assumes "chain s r xs"
  shows "heads s r = first_of xs" and "tails s r = last_of xs"
proof -
  from assms have n: "walk (nexts s) (heads s r) xs None"
    and p: "walk (prevs s) (tails s r) (rev xs) None"
    by (auto simp: chain_def)
  show "heads s r = first_of xs"
    using n by (cases xs) auto
  show "tails s r = last_of xs"
    using p by (cases xs rule: rev_cases) auto
qed

lemma walk_iter_from: "walk (nexts s) x xs None \<Longrightarrow> iter_from s x = Some xs"
proof (induction xs arbitrary: x)
  case Nil
  then show ?case by (subst iter_from.simps) simp
next
  case (Cons a xs)
  then have "iter_from s (nexts s a) = Some xs" by simp
  with Cons.prems show ?case by (subst iter_from.simps) (simp add: fold_fields)
qed

lemma chain_iter_tasks: "chain s r xs \<Longrightarrow> iter_tasks r s = Some xs"
  by (simp add: chain_def iter_tasks_def fold_fields walk_iter_from)

section \<open>Steps that change cached timing only\<close>

lemma timing_step_refl [simp]: "timing_step A s s"
  by (simp add: timing_step_def)

lemma timing_step_trans:
  "timing_step A s s1 \<Longrightarrow> timing_step B s1 s2 \<Longrightarrow> timing_step (A \<union> B) s s2"
  by (simp add: timing_step_def)

lemma timing_step_mono: "timing_step A s s' \<Longrightarrow> A \<subseteq> B \<Longrightarrow> timing_step B s s'"
  by (auto simp: timing_step_def)

lemma timing_step_trans':
  "timing_step A s s1 \<Longrightarrow> timing_step A s1 s2 \<Longrightarrow> timing_step A s s2"
  using timing_step_trans [of A s s1 A s2] by simp

lemma timing_step_chain: "timing_step A s s' \<Longrightarrow> chain s' r xs = chain s r xs"
proof -
  assume "timing_step A s s'"
  then have "nexts s' = nexts s" "prevs s' = prevs s" "owners s' = owners s"
      "heads s' = heads s" "tails s' = tails s"
    by (simp_all add: timing_step_def nexts_def prevs_def owners_def heads_def tails_def
          fun_eq_iff)
  then show ?thesis by (simp add: chain_def)
qed

lemma timing_step_outside: "timing_step A s s' \<Longrightarrow> a \<notin> A \<Longrightarrow> tasks s' a = tasks s a"
  by (simp add: timing_step_def)

lemma timing_step_clean:
  "timing_step A s s' \<Longrightarrow> \<not> u_dirty (tasks s a) \<Longrightarrow> \<not> u_dirty (tasks s' a)"
  "timing_step A s s' \<Longrightarrow> \<not> u_dirty (tasks s a) \<Longrightarrow>
     u_earliest_start (tasks s' a) = u_earliest_start (tasks s a)"
  by (simp_all add: timing_step_def)

lemma timing_step_statics:
  assumes "timing_step A s s'"
  shows "u_duration (tasks s' a) = u_duration (tasks s a)"
    and "u_target (tasks s' a) = u_target (tasks s a)"
    and "u_min_margin_before (tasks s' a) = u_min_margin_before (tasks s a)"
    and "nxt (tasks s' a) = nxt (tasks s a)"
    and "previous (tasks s' a) = previous (tasks s a)"
    and "resources s' = resources s"
  using assms by (simp_all add: timing_step_def)

lemma timing_step_set_dirty: "t \<in> A \<Longrightarrow> timing_step A s (set_dirty t False s)"
  by (simp add: timing_step_def set_dirty_def)

lemma timing_step_set_earliest_start:
  "t \<in> A \<Longrightarrow> u_dirty (tasks s t) \<Longrightarrow> timing_step A s (set_earliest_start t v s)"
  by (auto simp: timing_step_def set_earliest_start_def)

lemma timing_step_set_start: "t \<in> A \<Longrightarrow> timing_step A s (set_start t v s)"
  by (simp add: timing_step_def set_start_def)

lemma field_upd [simp]:
  "u_dirty (tasks (set_dirty a b s) c) = (if c = a then b else u_dirty (tasks s c))"
  "u_dirty (tasks (set_earliest_start a v s) c) = u_dirty (tasks s c)"
  "u_dirty (tasks (set_start a v s) c) = u_dirty (tasks s c)"
  "u_earliest_start (tasks (set_dirty a b s) c) = u_earliest_start (tasks s c)"
  "u_earliest_start (tasks (set_earliest_start a v s) c) =
     (if c = a then v else u_earliest_start (tasks s c))"
  "u_earliest_start (tasks (set_start a v s) c) = u_earliest_start (tasks s c)"
  "u_start (tasks (set_dirty a b s) c) = u_start (tasks s c)"
  "u_start (tasks (set_earliest_start a v s) c) = u_start (tasks s c)"
  "u_start (tasks (set_start a v s) c) = (if c = a then v else u_start (tasks s c))"
  by (simp_all add: set_dirty_def set_earliest_start_def set_start_def)

lemma calc_step_refl [simp]: "calc_step A s s"
  by (simp add: calc_step_def)

lemma calc_step_trans: "calc_step A s s1 \<Longrightarrow> calc_step A s1 s2 \<Longrightarrow> calc_step A s s2"
  by (auto simp: calc_step_def intro: timing_step_trans')

lemma calc_step_mono: "calc_step A s s' \<Longrightarrow> A \<subseteq> B \<Longrightarrow> calc_step B s s'"
  by (auto simp: calc_step_def intro: timing_step_mono)

lemma calc_step_timing: "calc_step A s s' \<Longrightarrow> timing_step A s s'"
  by (simp add: calc_step_def)

lemma calc_step_chain: "calc_step A s s' \<Longrightarrow> chain s' r xs = chain s r xs"
  by (rule timing_step_chain) (rule calc_step_timing)

lemma calc_step_clean_task:
  "calc_step A s s' \<Longrightarrow> \<not> u_dirty (tasks s a) \<Longrightarrow> tasks s' a = tasks s a"
  by (simp add: calc_step_def)

lemma calc_step_same:
  assumes "calc_step A s s'" and "\<forall>a\<in>A. \<not> u_dirty (tasks s a)"
  shows "s' = s"
proof -
  have "tasks s' a = tasks s a" for a
  proof (cases "a \<in> A")
    case True
    with assms show ?thesis by (simp add: calc_step_def)
  next
    case False
    with timing_step_outside [OF calc_step_timing [OF assms(1)]] show ?thesis by simp
  qed
  then have "tasks s' = tasks s" by (simp add: fun_eq_iff)
  moreover have "resources s' = resources s" "classes s' = classes s"
    using assms(1) by (simp_all add: calc_step_def timing_step_def)
  ultimately show ?thesis by (intro state.equality) simp_all
qed

section \<open>The cache: \<^verbatim>\<open>calculate\<close> and the properties\<close>

text \<open>
  \<^verbatim>\<open>calculate\<close> as the source writes it: the predecessor's \<^verbatim>\<open>earliest_stop\<close> is read
  through the property, the sum is converted, the start is raised, the flag is cleared.
\<close>

lemma calculate_unfold:
  "calculate self s =
    (case previous (tasks s self) of
       Some prev_task \<Rightarrow>
         bind_o (earliest_stop prev_task s) (\<lambda>stop s1.
         bind_o (to_c_int (stop + u_min_margin_before (tasks s1 self)) s1) (\<lambda>e s1.
           let s2 = set_earliest_start self e s1;
               s3 = set_start self
                      (max (u_earliest_start (tasks s2 self)) (u_start (tasks s2 self))) s2
           in ret () (set_dirty self False s3)))
     | None \<Rightarrow> ret () (set_dirty self False (set_earliest_start self 0 s)))"
  by (subst calculate.simps)
     (simp add: earliest_stop_def earliest_start_def bind_o_def ret_def raise_def to_c_int_def
        Let_def split: option.splits sum.splits prod.splits)

text \<open>
  On a chain \<^verbatim>\<open>calculate\<close> ends: the recursion climbs towards the head through dirty
  predecessors only and touches nothing but dirty tasks before \<open>t\<close>, and \<open>t\<close> itself.
\<close>

lemma calc_step_set_dirty:
  "t \<in> A \<Longrightarrow> u_dirty (tasks s t) \<Longrightarrow> calc_step A s (set_dirty t False s)"
  by (auto simp: calc_step_def timing_step_def set_dirty_def)

lemma calc_step_set_earliest_start:
  "t \<in> A \<Longrightarrow> u_dirty (tasks s t) \<Longrightarrow> calc_step A s (set_earliest_start t v s)"
  by (auto simp: calc_step_def timing_step_def set_earliest_start_def)

lemma calc_step_set_start:
  "t \<in> A \<Longrightarrow> u_dirty (tasks s t) \<Longrightarrow> calc_step A s (set_start t v s)"
  by (auto simp: calc_step_def timing_step_def set_start_def)

lemma calc_step_outside: "calc_step A s s' \<Longrightarrow> a \<notin> A \<Longrightarrow> tasks s' a = tasks s a"
  by (simp add: calc_step_def timing_step_def)

lemma calculate_chain:
  "chain s r (as @ t # bs) \<Longrightarrow> u_dirty (tasks s t) \<Longrightarrow>
     ends (calculate t s) (calc_step (set (as @ [t])) s) (\<lambda>_ s'. \<not> u_dirty (tasks s' t))
       (\<lambda>e. e = OverflowError)"
proof (induction as arbitrary: t bs rule: rev_induct)
  case Nil
  then have "prevs s t = None"
    using chain_mid(2) [of s r "[]" t bs] by simp
  then have "calculate t s = ret () (set_dirty t False (set_earliest_start t 0 s))"
    by (subst calculate_unfold) (simp add: fold_fields)
  moreover have "calc_step {t} s (set_dirty t False (set_earliest_start t 0 s))"
    using Nil.prems(2)
    by (intro calc_step_trans [OF calc_step_set_earliest_start calc_step_set_dirty]) simp_all
  ultimately show ?case by (simp add: ends_ret)
next
  case (snoc p as)
  have c: "chain s r (as @ p # t # bs)" using snoc.prems(1) by simp
  have pt: "p \<noteq> t" "t \<notin> set as" using c by (auto simp: chain_def)
  have pv: "prevs s t = Some p"
    using chain_mid(2) [OF snoc.prems(1)] by simp
  let ?A = "set ((as @ [p]) @ [t])"
  have stop: "ends (earliest_stop p s) (calc_step (set (as @ [p])) s) (\<lambda>_ _. True)
                (\<lambda>e. e = OverflowError)"
  proof (cases "u_dirty (tasks s p)")
    case True
    have "ends (calculate p s) (calc_step (set (as @ [p])) s) (\<lambda>_ s'. \<not> u_dirty (tasks s' p))
            (\<lambda>e. e = OverflowError)"
      using c True by (rule snoc.IH)
    then have "ends (bind_o (calculate p s) (\<lambda>_ s1. ret (u_earliest_start (tasks s1 p)) s1))
            (calc_step (set (as @ [p])) s) (\<lambda>_ _. True) (\<lambda>e. e = OverflowError)"
      by (rule ends_bind) (simp_all add: ends_ret)
    then have "ends (bind_o (bind_o (calculate p s)
                 (\<lambda>_ s1. ret (u_earliest_start (tasks s1 p)) s1))
                 (\<lambda>es s1. ret (es + u_duration (tasks s1 p)) s1))
            (calc_step (set (as @ [p])) s) (\<lambda>_ _. True) (\<lambda>e. e = OverflowError)"
      by (rule ends_bind) (simp_all add: ends_ret)
    then show ?thesis
      using True by (simp add: earliest_stop_def earliest_start_def)
  next
    case False
    then show ?thesis
      by (simp add: earliest_stop_def earliest_start_def ends_ret)
  qed
  have rest: "ends
     (bind_o (to_c_int (stop + u_min_margin_before (tasks s1 t)) s1) (\<lambda>e s1.
           let s2 = set_earliest_start t e s1;
               s3 = set_start t
                      (max (u_earliest_start (tasks s2 t)) (u_start (tasks s2 t))) s2
           in ret () (set_dirty t False s3)))
     (calc_step ?A s) (\<lambda>_ s'. \<not> u_dirty (tasks s' t)) (\<lambda>e. e = OverflowError)"
    if s1: "calc_step (set (as @ [p])) s s1" for stop s1
  proof -
    have same: "tasks s1 t = tasks s t"
      using calc_step_outside [OF s1, of t] pt by simp
    have d1: "u_dirty (tasks s1 t)" using same snoc.prems(2) by simp
    have a1: "calc_step ?A s s1" using s1 by (rule calc_step_mono) auto
    have step: "calc_step ?A s1
         (set_dirty t False (set_start t w (set_earliest_start t e s1)))" for e w
      using d1
      by (intro calc_step_trans [OF calc_step_set_earliest_start
            calc_step_trans [OF calc_step_set_start calc_step_set_dirty]]) simp_all
    show ?thesis
    proof (rule ends_bind [where ?R1.0 = "\<lambda>s'. s' = s1" and ?Q1.0 = "\<lambda>_ _. True"])
      show "ends (to_c_int (stop + u_min_margin_before (tasks s1 t)) s1) (\<lambda>s'. s' = s1)
              (\<lambda>_ _. True) (\<lambda>e. e = OverflowError)"
        by (rule ends_to_c_int) simp_all
    next
      fix s' assume "s' = s1"
      with a1 show "calc_step ?A s s'" by simp
    next
      fix v s' assume "s' = s1"
      then show "ends (let s2 = set_earliest_start t v s';
               s3 = set_start t
                      (max (u_earliest_start (tasks s2 t)) (u_start (tasks s2 t))) s2
           in ret () (set_dirty t False s3))
          (calc_step ?A s) (\<lambda>_ s'. \<not> u_dirty (tasks s' t)) (\<lambda>e. e = OverflowError)"
        using calc_step_trans [OF a1 step] by (simp add: Let_def ends_ret)
    qed
  qed
  have "ends (bind_o (earliest_stop p s) (\<lambda>stop s1.
         bind_o (to_c_int (stop + u_min_margin_before (tasks s1 t)) s1) (\<lambda>e s1.
           let s2 = set_earliest_start t e s1;
               s3 = set_start t
                      (max (u_earliest_start (tasks s2 t)) (u_start (tasks s2 t))) s2
           in ret () (set_dirty t False s3))))
     (calc_step ?A s) (\<lambda>_ s'. \<not> u_dirty (tasks s' t)) (\<lambda>e. e = OverflowError)"
    using stop
  proof (rule ends_bind)
    fix s1 assume "calc_step (set (as @ [p])) s s1"
    then show "calc_step ?A s s1" by (rule calc_step_mono) auto
  next
    fix v s1 assume "calc_step (set (as @ [p])) s s1"
    then show "ends
     (bind_o (to_c_int (v + u_min_margin_before (tasks s1 t)) s1) (\<lambda>e s1.
           let s2 = set_earliest_start t e s1;
               s3 = set_start t
                      (max (u_earliest_start (tasks s2 t)) (u_start (tasks s2 t))) s2
           in ret () (set_dirty t False s3)))
     (calc_step ?A s) (\<lambda>_ s'. \<not> u_dirty (tasks s' t)) (\<lambda>e. e = OverflowError)"
      by (rule rest)
  qed
  then show ?case
    using pv by (subst calculate_unfold) (simp add: fold_fields)
qed

lemma if_dirty_calculate:
  assumes "chain s r (as @ t # bs)"
  shows "ends (if u_dirty (tasks s t) then calculate t s else ret () s)
           (calc_step (set (as @ [t])) s) (\<lambda>_ s'. \<not> u_dirty (tasks s' t))
           (\<lambda>e. e = OverflowError)"
proof (cases "u_dirty (tasks s t)")
  case True
  with calculate_chain [OF assms True] show ?thesis by simp
next
  case False
  then show ?thesis by (simp add: ends_ret)
qed

lemma earliest_start_chain:
  assumes "chain s r (as @ t # bs)"
  shows "ends (earliest_start t s) (calc_step (set (as @ [t])) s)
           (\<lambda>v s'. \<not> u_dirty (tasks s' t) \<and> v = u_earliest_start (tasks s' t))
           (\<lambda>e. e = OverflowError)"
  unfolding earliest_start_def
  using if_dirty_calculate [OF assms]
  by (rule ends_bind) (simp_all add: ends_ret)

lemma start_chain:
  assumes "chain s r (as @ t # bs)"
  shows "ends (start t s) (calc_step (set (as @ [t])) s)
           (\<lambda>v s'. \<not> u_dirty (tasks s' t) \<and> v = u_start (tasks s' t))
           (\<lambda>e. e = OverflowError)"
  unfolding start_def
  using if_dirty_calculate [OF assms]
  by (rule ends_bind) (simp_all add: ends_ret)

lemma start_clean: "\<not> u_dirty (tasks s t) \<Longrightarrow> start t s = ret (u_start (tasks s t)) s"
  by (simp add: start_def)

lemma earliest_start_clean:
  "\<not> u_dirty (tasks s t) \<Longrightarrow> earliest_start t s = ret (u_earliest_start (tasks s t)) s"
  by (simp add: earliest_start_def)

lemma start_setter_clean:
  "\<not> u_dirty (tasks s t) \<Longrightarrow>
     start_setter t v s =
       (if c_int (max (u_earliest_start (tasks s t)) v)
        then ret () (set_start t (max (u_earliest_start (tasks s t)) v) s)
        else raise OverflowError s)"
  by (simp add: start_setter_def earliest_start_def to_c_int_def)

lemma start_setter_chain:
  assumes "chain s r (as @ t # bs)"
  shows "ends (start_setter t v s) (timing_step (set (as @ [t])) s)
           (\<lambda>_ s'. \<not> u_dirty (tasks s' t)
               \<and> u_start (tasks s' t) = max (u_earliest_start (tasks s' t)) v
               \<and> c_int (u_start (tasks s' t)))
           (\<lambda>e. e = OverflowError)"
  unfolding start_setter_def
  using earliest_start_chain [OF assms]
proof (rule ends_bind)
  fix s1 assume "calc_step (set (as @ [t])) s s1"
  then show "timing_step (set (as @ [t])) s s1" by (rule calc_step_timing)
next
  fix es s1
  assume s1: "calc_step (set (as @ [t])) s s1"
    and es: "\<not> u_dirty (tasks s1 t) \<and> es = u_earliest_start (tasks s1 t)"
  have t1: "timing_step (set (as @ [t])) s s1" using s1 by (rule calc_step_timing)
  have t2: "timing_step (set (as @ [t])) s (set_start t w s1)" for w
    using t1 by (rule timing_step_trans') (simp add: timing_step_set_start)
  show "ends (bind_o (to_c_int (max es v) s1) (\<lambda>w s2. ret () (set_start t w s2)))
          (timing_step (set (as @ [t])) s)
          (\<lambda>_ s'. \<not> u_dirty (tasks s' t)
               \<and> u_start (tasks s' t) = max (u_earliest_start (tasks s' t)) v
               \<and> c_int (u_start (tasks s' t)))
          (\<lambda>e. e = OverflowError)"
    using es t1 t2 by (simp add: to_c_int_def ends_ret ends_raise)
qed

section \<open>The backward sweep\<close>

lemma backward_ok_frame:
  "(\<And>a. a \<in> set ys \<Longrightarrow> tasks s' a = tasks s a) \<Longrightarrow> backward_ok s' ys = backward_ok s ys"
  by (induction s ys rule: backward_ok.induct) auto

lemma backward_ok_tl: "backward_ok s (t # bs) \<Longrightarrow> backward_ok s bs"
  by (cases bs) simp_all

lemma backward_ok_hd:
  "backward_ok s (t # bs) \<Longrightarrow>
     u_start (tasks s t) =
       max (u_earliest_start (tasks s t))
         (case bs of
            [] \<Rightarrow> u_target (tasks s t)
          | n # _ \<Rightarrow> min (u_target (tasks s t))
                      (u_start (tasks s n) - u_min_margin_before (tasks s n)
                         - u_duration (tasks s t)))"
  by (cases bs) simp_all

lemma backward_ok_drop: "backward_ok s (as @ bs) \<Longrightarrow> backward_ok s bs"
proof (induction as)
  case Nil
  then show ?case by simp
next
  case (Cons a as)
  then show ?case using backward_ok_tl [of s a "as @ bs"] by simp
qed

lemma backward_stop: "schedule_backward_loop None s = Some (Inr (), s)"
  by (subst schedule_backward_loop.simps) simp

lemma backward_step_raise:
  "schedule_backward_body a s = Some (Inl e, s1) \<Longrightarrow>
     schedule_backward_loop (Some a) s = Some (Inl e, s1)"
  by (subst schedule_backward_loop.simps) simp

lemma backward_step_return:
  "schedule_backward_body a s = Some (Inr v, s1) \<Longrightarrow>
     schedule_backward_loop (Some a) s = schedule_backward_loop (previous (tasks s1 a)) s1"
  by (subst schedule_backward_loop.simps) simp

text \<open>
  One iteration at \<open>t\<close>, when the tasks after \<open>t\<close> are done: \<open>t\<close> becomes clean and gets
  its start, or the iteration raises \<^verbatim>\<open>OverflowError\<close>; then the whole loop.
\<close>

lemma backward_body_chain:
  assumes c: "chain s r (as @ t # bs)" and cl: "clean_on s bs" and ok: "backward_ok s bs"
  shows "ends (schedule_backward_body t s) (timing_step (set (as @ [t])) s)
           (\<lambda>_ s2. \<not> u_dirty (tasks s2 t) \<and> backward_ok s2 (t # bs)
               \<and> c_int (u_start (tasks s2 t)))
           (\<lambda>e. e = OverflowError)"
proof (cases bs)
  case Nil
  then have nx: "nexts s t = None" using chain_mid(1) [OF c] by simp
  have "ends (start_setter t (u_target (tasks s t)) s) (timing_step (set (as @ [t])) s)
           (\<lambda>_ s2. \<not> u_dirty (tasks s2 t) \<and> backward_ok s2 (t # bs)
               \<and> c_int (u_start (tasks s2 t)))
           (\<lambda>e. e = OverflowError)"
    using start_setter_chain [OF c, of "u_target (tasks s t)"]
  proof (rule ends_weaken)
    fix v s2
    assume ts: "timing_step (set (as @ [t])) s s2"
      and q: "\<not> u_dirty (tasks s2 t)
         \<and> u_start (tasks s2 t) = max (u_earliest_start (tasks s2 t)) (u_target (tasks s t))
         \<and> c_int (u_start (tasks s2 t))"
    have "backward_ok s2 (t # bs)"
      using q Nil by (simp add: timing_step_statics [OF ts])
    with q show "\<not> u_dirty (tasks s2 t) \<and> backward_ok s2 (t # bs)
        \<and> c_int (u_start (tasks s2 t))" by blast
  qed simp_all
  then show ?thesis using nx by (simp add: schedule_backward_body_def fold_fields)
next
  case (Cons n bs')
  then have nx: "nexts s t = Some n" using chain_mid(1) [OF c] by simp
  have d: "set (as @ [t]) \<inter> set bs = {}" using c by (auto simp: chain_def)
  have cn: "\<not> u_dirty (tasks s n)" using cl Cons by (simp add: clean_on_def)
  let ?v = "min (u_target (tasks s t))
                (u_start (tasks s n) - u_min_margin_before (tasks s n) - u_duration (tasks s t))"
  have "ends (start_setter t ?v s) (timing_step (set (as @ [t])) s)
           (\<lambda>_ s2. \<not> u_dirty (tasks s2 t) \<and> backward_ok s2 (t # bs)
               \<and> c_int (u_start (tasks s2 t)))
           (\<lambda>e. e = OverflowError)"
    using start_setter_chain [OF c, of ?v]
  proof (rule ends_weaken)
    fix v s2
    assume ts: "timing_step (set (as @ [t])) s s2"
      and q: "\<not> u_dirty (tasks s2 t)
         \<and> u_start (tasks s2 t) = max (u_earliest_start (tasks s2 t)) ?v
         \<and> c_int (u_start (tasks s2 t))"
    have same: "tasks s2 a = tasks s a" if "a \<in> set bs" for a
      using timing_step_outside [OF ts, of a] that d by auto
    have "backward_ok s2 (n # bs') = backward_ok s (n # bs')"
      using same Cons by (intro backward_ok_frame) simp
    with ok Cons have "backward_ok s2 (n # bs')" by simp
    moreover have "tasks s2 n = tasks s n" using same Cons by simp
    ultimately have "backward_ok s2 (t # bs)"
      using q Cons by (simp add: timing_step_statics [OF ts])
    with q show "\<not> u_dirty (tasks s2 t) \<and> backward_ok s2 (t # bs)
        \<and> c_int (u_start (tasks s2 t))" by blast
  qed simp_all
  then show ?thesis
    using nx cn by (simp add: schedule_backward_body_def fold_fields start_clean)
qed

lemma backward_loop_chain:
  "chain s r (as @ t # bs) \<Longrightarrow> clean_on s bs \<Longrightarrow> backward_ok s bs \<Longrightarrow>
     (\<forall>a\<in>set bs. c_int (u_start (tasks s a))) \<Longrightarrow>
     ends (schedule_backward_loop (Some t) s) (timing_step (set (as @ t # bs)) s)
       (\<lambda>_ s'. clean_on s' (as @ t # bs) \<and> backward_ok s' (as @ t # bs)
           \<and> (\<forall>a\<in>set (as @ t # bs). c_int (u_start (tasks s' a))))
       (\<lambda>e. e = OverflowError)"
proof (induction as arbitrary: t bs s rule: rev_induct)
  case (Nil t bs s)
  note c = Nil.prems(1)
  have d: "t \<notin> set bs" using c by (simp add: chain_def)
  have pv: "prevs s t = None" using chain_mid(2) [of s r "[]" t bs] c by simp
  from backward_body_chain [OF c Nil.prems(2,3)] obtain res s2
    where b: "schedule_backward_body t s = Some (res, s2)" and ts: "timing_step {t} s s2"
      and q: "case res of Inr v \<Rightarrow> \<not> u_dirty (tasks s2 t) \<and> backward_ok s2 (t # bs)
                 \<and> c_int (u_start (tasks s2 t))
              | Inl e \<Rightarrow> e = OverflowError"
    by (auto elim: endsE)
  have ts': "timing_step (set (t # bs)) s s2" using ts by (rule timing_step_mono) simp
  show ?case
  proof (cases res)
    case (Inl e)
    with q b ts' show ?thesis by (simp add: backward_step_raise ends_Some_Inl)
  next
    case (Inr v)
    have same: "tasks s2 a = tasks s a" if "a \<in> set bs" for a
      using timing_step_outside [OF ts, of a] that d by auto
    have "schedule_backward_loop (Some t) s = Some (Inr (), s2)"
      using b Inr pv timing_step_statics(5) [OF ts, of t]
      by (simp add: backward_step_return fold_fields backward_stop)
    moreover have "clean_on s2 (t # bs)"
      using Nil.prems(2) q Inr same by (auto simp: clean_on_def)
    moreover have "\<forall>a\<in>set (t # bs). c_int (u_start (tasks s2 a))"
      using Nil.prems(4) q Inr same by auto
    ultimately show ?thesis using q Inr ts' by (simp add: ends_Some_Inr)
  qed
next
  case (snoc p as t bs s)
  note c = snoc.prems(1)
  have d: "set (as @ [p, t]) \<inter> set bs = {}" using c by (auto simp: chain_def)
  have pv: "prevs s t = Some p" using chain_mid(2) [OF c] by simp
  let ?A = "set ((as @ [p]) @ [t])"
  from backward_body_chain [OF c snoc.prems(2,3)] obtain res s2
    where b: "schedule_backward_body t s = Some (res, s2)" and ts: "timing_step ?A s s2"
      and q: "case res of Inr v \<Rightarrow> \<not> u_dirty (tasks s2 t) \<and> backward_ok s2 (t # bs)
                 \<and> c_int (u_start (tasks s2 t))
              | Inl e \<Rightarrow> e = OverflowError"
    by (auto elim: endsE)
  have ts': "timing_step (set ((as @ [p]) @ t # bs)) s s2"
    using ts by (rule timing_step_mono) auto
  show ?case
  proof (cases res)
    case (Inl e)
    with q b ts' show ?thesis by (simp add: backward_step_raise ends_Some_Inl)
  next
    case (Inr v)
    have same: "tasks s2 a = tasks s a" if "a \<in> set bs" for a
      using timing_step_outside [OF ts, of a] that d by auto
    have c2: "chain s2 r (as @ p # t # bs)"
      using c ts by (simp add: timing_step_chain)
    have cl2: "clean_on s2 (t # bs)"
      using snoc.prems(2) q Inr same by (auto simp: clean_on_def)
    have ok2: "backward_ok s2 (t # bs)" using q Inr by simp
    have ci2: "\<forall>a\<in>set (t # bs). c_int (u_start (tasks s2 a))"
      using snoc.prems(4) q Inr same by auto
    have loop: "schedule_backward_loop (Some t) s = schedule_backward_loop (Some p) s2"
      using b Inr pv timing_step_statics(5) [OF ts, of t]
      by (simp add: backward_step_return fold_fields)
    have "ends (schedule_backward_loop (Some p) s2)
       (timing_step (set ((as @ [p]) @ t # bs)) s)
       (\<lambda>_ s'. clean_on s' ((as @ [p]) @ t # bs) \<and> backward_ok s' ((as @ [p]) @ t # bs)
           \<and> (\<forall>a\<in>set ((as @ [p]) @ t # bs). c_int (u_start (tasks s' a))))
       (\<lambda>e. e = OverflowError)"
      using snoc.IH [OF c2 cl2 ok2 ci2]
    proof (rule ends_weaken)
      fix s' assume "timing_step (set (as @ p # t # bs)) s2 s'"
      with ts' show "timing_step (set ((as @ [p]) @ t # bs)) s s'"
        using timing_step_trans' [of "set ((as @ [p]) @ t # bs)" s s2 s'] by simp
    qed simp_all
    with loop show ?thesis by simp
  qed
qed

lemma schedule_backward_chain:
  assumes "chain s r xs" and "xs \<noteq> []"
  shows "ends (schedule_backward (last xs) s) (timing_step (set xs) s)
           (\<lambda>_ s'. clean_on s' xs \<and> backward_ok s' xs
               \<and> (\<forall>a\<in>set xs. c_int (u_start (tasks s' a))))
           (\<lambda>e. e = OverflowError)"
proof -
  from assms(2) obtain as t where xs: "xs = as @ [t]"
    by (cases xs rule: rev_cases) auto
  have "chain s r (as @ t # [])" using assms(1) xs by simp
  from backward_loop_chain [OF this] xs show ?thesis
    by (simp add: schedule_backward_def clean_on_def)
qed

section \<open>Stores that differ in starts only\<close>

lemma starts_only_refl [simp]: "starts_only A s s"
  by (simp add: starts_only_def)

lemma starts_only_timing: "starts_only A s s' \<Longrightarrow> timing_step A s s'"
  by (simp add: starts_only_def)

lemma starts_only_chain: "starts_only A s s' \<Longrightarrow> chain s' r xs = chain s r xs"
  by (rule timing_step_chain) (rule starts_only_timing)

lemma starts_only_trans: "starts_only A s s1 \<Longrightarrow> starts_only A s1 s2 \<Longrightarrow> starts_only A s s2"
  by (auto simp: starts_only_def intro: timing_step_trans')

lemma starts_only_mono: "starts_only A s s' \<Longrightarrow> A \<subseteq> B \<Longrightarrow> starts_only B s s'"
  by (auto simp: starts_only_def intro: timing_step_mono)

lemma starts_only_set_start: "t \<in> A \<Longrightarrow> starts_only A s (set_start t v s)"
  by (simp add: starts_only_def timing_step_set_start)

lemma starts_only_clean: "starts_only A s s' \<Longrightarrow> clean_on s' xs = clean_on s xs"
  by (simp add: starts_only_def clean_on_def)

lemma starts_only_sym: "starts_only A s s' \<Longrightarrow> starts_only A s' s"
  by (simp add: starts_only_def timing_step_def)

lemma starts_only_outside: "starts_only A s s' \<Longrightarrow> a \<notin> A \<Longrightarrow> tasks s' a = tasks s a"
  by (simp add: starts_only_def timing_step_def)

lemma timing_step_clean_starts_only:
  assumes "timing_step A s s'" and "\<forall>a\<in>A. \<not> u_dirty (tasks s a)"
  shows "starts_only A s s'"
proof -
  have "u_dirty (tasks s' a) = u_dirty (tasks s a)
        \<and> u_earliest_start (tasks s' a) = u_earliest_start (tasks s a)" for a
  proof (cases "a \<in> A")
    case True
    with assms show ?thesis by (simp add: timing_step_clean)
  next
    case False
    with assms(1) show ?thesis by (simp add: timing_step_outside)
  qed
  with assms(1) show ?thesis by (simp add: starts_only_def)
qed

lemma starts_only_same:
  assumes "starts_only A s s'" and "\<forall>a\<in>A. u_start (tasks s' a) = u_start (tasks s a)"
  shows "s' = s"
proof -
  have "tasks s' a = tasks s a" for a
  proof (cases "a \<in> A")
    case True
    with assms show ?thesis
      by (intro task.equality) (simp_all add: starts_only_def timing_step_def)
  next
    case False
    with timing_step_outside [OF starts_only_timing [OF assms(1)]] show ?thesis by simp
  qed
  then have "tasks s' = tasks s" by (simp add: fun_eq_iff)
  moreover have "resources s' = resources s" "classes s' = classes s"
    using assms(1) by (simp_all add: starts_only_def timing_step_def)
  ultimately show ?thesis by (intro state.equality) simp_all
qed

lemma starts_only_shrink:
  assumes "starts_only (insert t A) s sb"
  shows "starts_only A (set_start t (u_start (tasks sb t)) s) sb"
proof -
  let ?s2 = "set_start t (u_start (tasks sb t)) s"
  have a: "starts_only (insert t A) ?s2 sb"
    using assms by (simp add: starts_only_def timing_step_def set_start_def)
  have e: "tasks sb t = tasks ?s2 t"
    using a by (intro task.equality) (simp_all add: starts_only_def timing_step_def)
  have "tasks sb a = tasks ?s2 a" if "a \<notin> A" for a
  proof (cases "a = t")
    case True
    with e show ?thesis by simp
  next
    case False
    with that have "a \<notin> insert t A" by simp
    from starts_only_outside [OF a this] show ?thesis .
  qed
  with a show ?thesis by (simp add: starts_only_def timing_step_def)
qed

section \<open>A second backward sweep\<close>

text \<open>
  On a clean chain whose earliest starts are those of a store \<open>sb\<close> that a backward
  sweep has produced, the backward sweep returns and produces \<open>sb\<close> again.
\<close>

lemma backward_body_restore:
  assumes c: "chain s r (as @ t # bs)" and cl: "clean_on s (as @ t # bs)"
    and so: "starts_only (set (as @ [t])) s sb"
    and ok: "backward_ok sb (as @ t # bs)"
    and ci: "c_int (u_start (tasks sb t))"
  shows "schedule_backward_body t s = Some (Inr (), set_start t (u_start (tasks sb t)) s)"
proof -
  have ct: "\<not> u_dirty (tasks s t)" using cl by (simp add: clean_on_def)
  have d: "set (as @ [t]) \<inter> set bs = {}" using c by (auto simp: chain_def)
  have same: "tasks sb a = tasks s a" if "a \<in> set bs" for a
    using starts_only_outside [OF so, of a] that d by auto
  have okt: "backward_ok sb (t # bs)" using ok by (rule backward_ok_drop)
  have es: "u_earliest_start (tasks sb t) = u_earliest_start (tasks s t)"
    using so by (simp add: starts_only_def)
  note st = timing_step_statics [OF starts_only_timing [OF so]]
  show ?thesis
  proof (cases bs)
    case Nil
    then have nx: "nexts s t = None" using chain_mid(1) [OF c] by simp
    have "u_start (tasks sb t) = max (u_earliest_start (tasks s t)) (u_target (tasks s t))"
      using backward_ok_hd [OF okt] Nil es st by simp
    with ci nx ct show ?thesis
      by (simp add: schedule_backward_body_def fold_fields start_setter_clean ret_def)
  next
    case (Cons n bs')
    then have nx: "nexts s t = Some n" using chain_mid(1) [OF c] by simp
    have cn: "\<not> u_dirty (tasks s n)" using cl Cons by (simp add: clean_on_def)
    have "tasks sb n = tasks s n" using same Cons by simp
    then have "u_start (tasks sb t) =
        max (u_earliest_start (tasks s t))
            (min (u_target (tasks s t))
               (u_start (tasks s n) - u_min_margin_before (tasks s n) - u_duration (tasks s t)))"
      using backward_ok_hd [OF okt] Cons es st by simp
    with ci nx ct cn show ?thesis
      by (simp add: schedule_backward_body_def fold_fields start_setter_clean start_clean ret_def)
  qed
qed

lemma backward_loop_restore:
  "chain s r (as @ t # bs) \<Longrightarrow> clean_on s (as @ t # bs) \<Longrightarrow>
     starts_only (set (as @ [t])) s sb \<Longrightarrow> backward_ok sb (as @ t # bs) \<Longrightarrow>
     (\<forall>a\<in>set (as @ [t]). c_int (u_start (tasks sb a))) \<Longrightarrow>
     schedule_backward_loop (Some t) s = Some (Inr (), sb)"
proof (induction as arbitrary: t bs s rule: rev_induct)
  case (Nil t bs s)
  let ?s2 = "set_start t (u_start (tasks sb t)) s"
  have pv: "prevs s t = None" using chain_mid(2) [of s r "[]" t bs] Nil.prems(1) by simp
  have ci: "c_int (u_start (tasks sb t))" using Nil.prems(5) by simp
  have b: "schedule_backward_body t s = Some (Inr (), ?s2)"
    using Nil.prems(1-4) ci by (rule backward_body_restore)
  have "starts_only {} ?s2 sb"
    using Nil.prems(3) by (intro starts_only_shrink) simp
  then have "sb = ?s2" by (rule starts_only_same) simp
  moreover have "previous (tasks ?s2 t) = None"
    using pv by (simp add: set_start_def prevs_def)
  then have "schedule_backward_loop (Some t) s = Some (Inr (), ?s2)"
    using backward_step_return [OF b] by (simp add: backward_stop)
  ultimately show ?case by simp
next
  case (snoc p as t bs s)
  let ?s2 = "set_start t (u_start (tasks sb t)) s"
  have pv: "prevs s t = Some p" using chain_mid(2) [OF snoc.prems(1)] by simp
  have ci: "c_int (u_start (tasks sb t))" using snoc.prems(5) by simp
  have b: "schedule_backward_body t s = Some (Inr (), ?s2)"
    using snoc.prems(1-4) ci by (rule backward_body_restore)
  have so2: "starts_only (set (as @ [p])) ?s2 sb"
    using snoc.prems(3) by (intro starts_only_shrink) (simp add: insert_commute)
  have ts: "starts_only {t} s ?s2" by (simp add: starts_only_set_start)
  have c2: "chain ?s2 r (as @ p # t # bs)"
    using snoc.prems(1) by (simp add: starts_only_chain [OF ts])
  have cl2: "clean_on ?s2 (as @ p # t # bs)"
    using snoc.prems(2) by (simp add: starts_only_clean [OF ts])
  have "schedule_backward_loop (Some p) ?s2 = Some (Inr (), sb)"
    using c2 cl2 so2 snoc.prems(4,5) by (intro snoc.IH) simp_all
  moreover have "previous (tasks ?s2 t) = Some p"
    using pv by (simp add: set_start_def prevs_def)
  ultimately show ?case
    using backward_step_return [OF b] by simp
qed

section \<open>The forward sweep on a clean chain\<close>

text \<open>
  The sweep changes starts only, from \<open>t\<close> on, and the score it returns is the score it
  was given plus the lateness of the tasks from \<open>t\<close> on in the store it leaves.
\<close>

lemma forward_stop: "schedule_forward_loop None score s = Some (Inr score, s)"
  by (subst schedule_forward_loop.simps) simp

lemma forward_step_raise:
  "schedule_forward_body a score s = Some (Inl e, s1) \<Longrightarrow>
     schedule_forward_loop (Some a) score s = Some (Inl e, s1)"
  by (subst schedule_forward_loop.simps) simp

lemma forward_step_return:
  "schedule_forward_body a score s = Some (Inr v, s1) \<Longrightarrow>
     schedule_forward_loop (Some a) score s = schedule_forward_loop (nxt (tasks s1 a)) v s1"
  by (subst schedule_forward_loop.simps) simp

lemma forward_body_clean:
  assumes c: "chain s r (as @ t # bs)" and cl: "clean_on s (as @ t # bs)"
  shows "ends (schedule_forward_body t score s) (starts_only {t} s)
           (\<lambda>v s'. v = score + lateness s' t) (\<lambda>e. e = OverflowError)"
proof -
  have ct: "\<not> u_dirty (tasks s t)" using cl by (simp add: clean_on_def)
  have fin: "ends (bind_o (start t s3) (\<lambda>ts s4.
           to_c_int (score + max 0 (ts - u_target (tasks s4 t))) s4))
        (starts_only {t} s) (\<lambda>v s'. v = score + lateness s' t) (\<lambda>e. e = OverflowError)"
    if "starts_only {t} s s3" for s3
  proof -
    have "\<not> u_dirty (tasks s3 t)" using that ct by (simp add: starts_only_def)
    with that show ?thesis
      by (simp add: start_clean to_c_int_def ends_ret ends_raise lateness_def)
  qed
  show ?thesis
  proof (cases as rule: rev_cases)
    case Nil
    then have "prevs s t = None" using chain_mid(2) [OF c] by simp
    with fin [of s] show ?thesis by (simp add: schedule_forward_body_def fold_fields)
  next
    case (snoc as' p)
    then have pv: "prevs s t = Some p" using chain_mid(2) [OF c] by simp
    have cp: "\<not> u_dirty (tasks s p)" using cl snoc by (simp add: clean_on_def)
    let ?w = "max (u_earliest_start (tasks s t))
              (max (u_start (tasks s p) + u_duration (tasks s p) + u_min_margin_before (tasks s t))
                   (u_start (tasks s t)))"
    show ?thesis
    proof (cases "c_int ?w")
      case True
      with fin [of "set_start t ?w s"] pv cp ct show ?thesis
        by (simp add: schedule_forward_body_def fold_fields start_clean start_setter_clean
              starts_only_set_start)
    next
      case False
      with pv cp ct show ?thesis
        by (simp add: schedule_forward_body_def fold_fields start_clean start_setter_clean
              ends_raise)
    qed
  qed
qed

lemma lateness_same: "tasks s' a = tasks s a \<Longrightarrow> lateness s' a = lateness s a"
  by (simp add: lateness_def)

lemma forward_loop_chain:
  "chain s r (as @ t # bs) \<Longrightarrow> clean_on s (as @ t # bs) \<Longrightarrow>
     ends (schedule_forward_loop (Some t) score s) (starts_only (set (t # bs)) s)
       (\<lambda>v s'. v = score + sum_list (map (lateness s') (t # bs)))
       (\<lambda>e. e = OverflowError)"
proof (induction bs arbitrary: as t s score)
  case (Nil as t s score)
  note c = Nil.prems(1)
  have nx: "nexts s t = None" using chain_mid(1) [OF c] by simp
  from forward_body_clean [OF Nil.prems, of score] obtain res s3
    where b: "schedule_forward_body t score s = Some (res, s3)" and so: "starts_only {t} s s3"
      and q: "case res of Inr v \<Rightarrow> v = score + lateness s3 t | Inl e \<Rightarrow> e = OverflowError"
    by (auto elim: endsE)
  show ?case
  proof (cases res)
    case (Inl e)
    with q b so show ?thesis by (simp add: forward_step_raise ends_Some_Inl)
  next
    case (Inr v)
    have "nxt (tasks s3 t) = None"
      using timing_step_statics(4) [OF starts_only_timing [OF so], of t] nx
      by (simp add: fold_fields)
    with b Inr have "schedule_forward_loop (Some t) score s = Some (Inr v, s3)"
      by (simp add: forward_step_return forward_stop)
    with q Inr so show ?thesis by (simp add: ends_Some_Inr)
  qed
next
  case (Cons n bs as t s score)
  note c = Cons.prems(1)
  have nx: "nexts s t = Some n" using chain_mid(1) [OF c] by simp
  have d: "t \<notin> set (n # bs)" using c by (auto simp: chain_def)
  from forward_body_clean [OF Cons.prems, of score] obtain res s3
    where b: "schedule_forward_body t score s = Some (res, s3)" and so: "starts_only {t} s s3"
      and q: "case res of Inr v \<Rightarrow> v = score + lateness s3 t | Inl e \<Rightarrow> e = OverflowError"
    by (auto elim: endsE)
  have so': "starts_only (set (t # n # bs)) s s3"
    using so by (rule starts_only_mono) simp
  show ?case
  proof (cases res)
    case (Inl e)
    with q b so' show ?thesis by (simp add: forward_step_raise ends_Some_Inl)
  next
    case (Inr v)
    have nx3: "nxt (tasks s3 t) = Some n"
      using timing_step_statics(4) [OF starts_only_timing [OF so], of t] nx
      by (simp add: fold_fields)
    have c3: "chain s3 r ((as @ [t]) @ n # bs)"
      using c so by (simp add: starts_only_chain)
    have cl3: "clean_on s3 ((as @ [t]) @ n # bs)"
      using Cons.prems(2) so by (simp add: starts_only_clean)
    have loop: "schedule_forward_loop (Some t) score s = schedule_forward_loop (Some n) v s3"
      using b Inr nx3 by (simp add: forward_step_return)
    have "ends (schedule_forward_loop (Some n) v s3) (starts_only (set (t # n # bs)) s)
       (\<lambda>v s'. v = score + sum_list (map (lateness s') (t # n # bs)))
       (\<lambda>e. e = OverflowError)"
      using Cons.IH [OF c3 cl3, of v]
    proof (rule ends_weaken)
      fix s' assume "starts_only (set (n # bs)) s3 s'"
      then have "starts_only (set (t # n # bs)) s3 s'" by (rule starts_only_mono) auto
      with so' show "starts_only (set (t # n # bs)) s s'" by (rule starts_only_trans)
    next
      fix w s'
      assume a: "starts_only (set (n # bs)) s3 s'"
        and w: "w = v + sum_list (map (lateness s') (n # bs))"
      have "tasks s' t = tasks s3 t" using starts_only_outside [OF a] d by simp
      then have "lateness s' t = lateness s3 t" by (rule lateness_same)
      with w q Inr show "w = score + sum_list (map (lateness s') (t # n # bs))" by simp
    qed simp
    with loop show ?thesis by simp
  qed
qed

section \<open>\<^verbatim>\<open>schedule\<close> on a chain\<close>

lemma schedule_chain:
  assumes "chain s r xs"
  shows "ends (schedule r s) (timing_step (set xs) s)
           (\<lambda>v s1. clean_on s1 xs \<and> v = sum_list (map (lateness s1) xs)
               \<and> schedule r s1 = Some (Inr v, s1))
           (\<lambda>e. e = OverflowError)"
proof (cases "xs = []")
  case True
  with chain_ends [OF assms] have "heads s r = None" "tails s r = None" by simp_all
  then have "schedule r s = Some (Inr 0, s)"
    by (simp add: schedule_def fold_fields ret_def)
  with True show ?thesis by (simp add: ends_Some_Inr clean_on_def)
next
  case False
  then obtain as where hdxs: "xs = hd xs # as" by (cases xs) auto
  from False obtain as' where lastxs: "xs = as' @ [last xs]"
    by (cases xs rule: rev_cases) auto
  have sched: "schedule r s' =
      bind_o (schedule_backward (last xs) s') (\<lambda>_ s1.
        case head (resources s1 r) of
           Some head_task \<Rightarrow> schedule_forward head_task s1
         | None \<Rightarrow> ret 0 s1)" if "chain s' r xs" for s'
    using chain_ends(2) [OF that] False by (simp add: schedule_def fold_fields last_of_def)
  from schedule_backward_chain [OF assms False] obtain resb sb
    where b: "schedule_backward (last xs) s = Some (resb, sb)"
      and tb: "timing_step (set xs) s sb"
      and qb: "case resb of Inr v \<Rightarrow> clean_on sb xs \<and> backward_ok sb xs
                 \<and> (\<forall>a\<in>set xs. c_int (u_start (tasks sb a)))
               | Inl e \<Rightarrow> e = OverflowError"
    by (auto elim: endsE)
  show ?thesis
  proof (cases resb)
    case (Inl e)
    with b qb tb sched [OF assms] show ?thesis by (simp add: ends_Some_Inl)
  next
    case (Inr u)
    have cb: "chain sb r xs" using assms tb by (simp add: timing_step_chain)
    have hb: "head (resources sb r) = Some (hd xs)"
      using chain_ends(1) [OF cb] hdxs by (cases xs) (simp_all add: fold_fields)
    have clb: "clean_on sb xs" and okb: "backward_ok sb xs"
      and cib: "\<forall>a\<in>set xs. c_int (u_start (tasks sb a))"
      using qb Inr by simp_all
    have first: "schedule r s = schedule_forward (hd xs) sb"
      using sched [OF assms] b Inr hb by simp
    have cb': "chain sb r ([] @ hd xs # as)" using cb hdxs by simp
    have clb': "clean_on sb ([] @ hd xs # as)" using clb hdxs by simp
    from forward_loop_chain [OF cb' clb', of 0] hdxs obtain resf s1
      where f: "schedule_forward (hd xs) sb = Some (resf, s1)"
        and so: "starts_only (set xs) sb s1"
        and qf: "case resf of Inr v \<Rightarrow> v = sum_list (map (lateness s1) xs)
                 | Inl e \<Rightarrow> e = OverflowError"
      by (auto elim!: endsE simp: schedule_forward_def)
    have t1: "timing_step (set xs) s s1"
      using tb starts_only_timing [OF so] by (rule timing_step_trans')
    show ?thesis
    proof (cases resf)
      case (Inl e)
      with first f qf t1 show ?thesis by (simp add: ends_Some_Inl)
    next
      case (Inr v)
      have c1: "chain s1 r xs" using cb so by (simp add: starts_only_chain)
      have cl1: "clean_on s1 xs" using clb so by (simp add: starts_only_clean)
      have c1': "chain s1 r (as' @ last xs # [])" using c1 lastxs by simp
      have cl1': "clean_on s1 (as' @ last xs # [])" using cl1 lastxs by simp
      have so1: "starts_only (set (as' @ [last xs])) s1 sb"
        using starts_only_sym [OF so] lastxs by simp
      have okb': "backward_ok sb (as' @ last xs # [])" using okb lastxs by simp
      have cib': "\<forall>a\<in>set (as' @ [last xs]). c_int (u_start (tasks sb a))"
        using cib lastxs by simp
      have "schedule_backward (last xs) s1 = Some (Inr (), sb)"
        unfolding schedule_backward_def
        using c1' cl1' so1 okb' cib' by (rule backward_loop_restore)
      with sched [OF c1] hb f Inr have "schedule r s1 = Some (Inr v, s1)" by simp
      with first f Inr qf t1 cl1 show ?thesis by (simp add: ends_Some_Inr)
    qed
  qed
qed

section \<open>The overrides of \<^verbatim>\<open>SchedulingTask\<close>\<close>

text \<open>
  Each of the four overrides stops at its \<^verbatim>\<open>super()\<close> call, in every store:
  \<^verbatim>\<open>move_out\<close>, \<^verbatim>\<open>move_in\<close> and \<^verbatim>\<open>insert\<close> leave the store as it was, \<^verbatim>\<open>drop\<close> leaves the
  store that \<^verbatim>\<open>invalidate\<close> produced.
\<close>

lemma SchedulingTask_move_out_raises:
  "SchedulingTask_move_out t s = Some (Inl RuntimeError, s)"
  by (simp add: SchedulingTask_move_out_def super_call_def raise_def bind_o_def)

lemma SchedulingTask_move_in_raises:
  "SchedulingTask_move_in t s = Some (Inl RuntimeError, s)"
  by (simp add: SchedulingTask_move_in_def super_call_def raise_def bind_o_def)

lemma SchedulingTask_insert_raises:
  "SchedulingTask_insert x t s = Some (Inl RuntimeError, s)"
  by (simp add: SchedulingTask_insert_def super_call_def raise_def bind_o_def)

lemma SchedulingTask_drop_raises:
  "invalidate t s = Some (Inr v, s1) \<Longrightarrow> SchedulingTask_drop t s = Some (Inl RuntimeError, s1)"
  by (simp add: SchedulingTask_drop_def super_call_def raise_def bind_o_def)

section \<open>The gain and the loop of \<^verbatim>\<open>improve\<close>\<close>

text \<open>
  Called with \<^verbatim>\<open>execute=True\<close>, \<^verbatim>\<open>improvement_move_in\<close> returns only a gain that is not
  negative: with a negative gain it calls \<^verbatim>\<open>task.move_in()\<close>, which raises. Until then
  it has only read properties, so it has changed nothing but the cache of dirty tasks.
\<close>

lemma ends_bind_same:
  assumes "ends m R Q1 E"
    and "\<And>v s1. R s1 \<Longrightarrow> Q1 v s1 \<Longrightarrow> ends (f v s1) R Q E"
  shows "ends (bind_o m f) R Q E"
  using assms(1) by (rule ends_bind) (simp_all add: assms(2))

lemma ends_errors:
  "ends m R Q (\<lambda>e. e = OverflowError) \<Longrightarrow>
     ends m R Q (\<lambda>e. e = OverflowError \<or> e = RuntimeError)"
  by (erule ends_weaken) simp_all

lemma start_rel:
  assumes "chain s0 r xs" and "t \<in> set xs" and "calc_step (set xs) s0 s"
  shows "ends (start t s) (calc_step (set xs) s0) (\<lambda>_ _. True) (\<lambda>e. e = OverflowError)"
proof -
  from assms(2) obtain as bs where xs: "xs = as @ t # bs"
    by (auto simp: in_set_conv_decomp)
  have "chain s r (as @ t # bs)"
    using assms(1,3) xs by (simp add: calc_step_chain)
  from start_chain [OF this] show ?thesis
  proof (rule ends_weaken)
    fix s' assume "calc_step (set (as @ [t])) s s'"
    then have "calc_step (set xs) s s'" by (rule calc_step_mono) (auto simp: xs)
    with assms(3) show "calc_step (set xs) s0 s'" by (rule calc_step_trans)
  qed simp_all
qed

lemma earliest_start_rel:
  assumes "chain s0 r xs" and "t \<in> set xs" and "calc_step (set xs) s0 s"
  shows "ends (earliest_start t s) (calc_step (set xs) s0) (\<lambda>_ _. True)
           (\<lambda>e. e = OverflowError)"
proof -
  from assms(2) obtain as bs where xs: "xs = as @ t # bs"
    by (auto simp: in_set_conv_decomp)
  have "chain s r (as @ t # bs)"
    using assms(1,3) xs by (simp add: calc_step_chain)
  from earliest_start_chain [OF this] show ?thesis
  proof (rule ends_weaken)
    fix s' assume "calc_step (set (as @ [t])) s s'"
    then have "calc_step (set xs) s s'" by (rule calc_step_mono) (auto simp: xs)
    with assms(3) show "calc_step (set xs) s0 s'" by (rule calc_step_trans)
  qed simp_all
qed

lemma to_c_int_rel:
  "R s \<Longrightarrow> ends (to_c_int v s) R (\<lambda>_ _. True) (\<lambda>e. e = OverflowError \<or> e = RuntimeError)"
  by (rule ends_to_c_int) simp_all

lemma improvement_move_in_chain:
  assumes c: "chain s0 r xs" and t: "t \<in> set xs" and s: "calc_step (set xs) s0 s"
  shows "ends (improvement_move_in t True s) (calc_step (set xs) s0) (\<lambda>g _. 0 \<le> g)
           (\<lambda>e. e = OverflowError \<or> e = RuntimeError)"
proof (cases "previous (tasks s t)")
  case None
  with s show ?thesis by (simp add: improvement_move_in_def ends_ret)
next
  case (Some p)
  from t obtain as bs where xs: "xs = as @ t # bs"
    by (auto simp: in_set_conv_decomp)
  have "chain s r (as @ t # bs)" using c s xs by (simp add: calc_step_chain)
  from chain_mid(2) [OF this] Some have "last_of as = Some p" by (simp add: fold_fields)
  then have p: "p \<in> set xs"
    unfolding xs last_of_def by (cases "as = []") auto
  note st = ends_errors [OF start_rel [OF c]]
  note es = ends_errors [OF earliest_start_rel [OF c]]
  show ?thesis
    unfolding improvement_move_in_def Some option.case
    apply (rule ends_bind_same, rule st [OF p s])
    apply (rule ends_bind_same, erule to_c_int_rel)
    apply (rule ends_bind_same, erule st [OF t])
    apply (rule ends_bind_same, erule to_c_int_rel)
    apply (rule ends_bind_same, erule es [OF p])
    apply (rule ends_bind_same, erule to_c_int_rel)
    apply (rule ends_bind_same, erule es [OF p])
    apply (rule ends_bind_same, erule to_c_int_rel)
    apply (simp add: Let_def SchedulingTask_move_in_raises ends_ret ends_Some_Inl)
    done
qed

text \<open>
  Hence the cursor of \<^verbatim>\<open>improve\<close> moves one task towards the head after every evaluation
  that returns.
\<close>

lemma improve_stop: "improve_loop None imp steps s = Some (steps, Inr imp, s)"
  by (subst improve_loop.simps) simp

lemma improve_step_raise:
  "improvement_move_in a True s = Some (Inl e, s1) \<Longrightarrow>
     improve_loop (Some a) imp steps s = Some (steps, Inl e, s1)"
  by (subst improve_loop.simps) simp

lemma improve_step_back:
  "improvement_move_in a True s = Some (Inr g, s1) \<Longrightarrow> 0 \<le> g \<Longrightarrow>
     improve_loop (Some a) imp steps s =
       improve_loop (previous (tasks s1 a)) imp (steps @ [g]) s1"
  by (subst improve_loop.simps) simp

lemma improve_loop_chain:
  "chain s0 r xs \<Longrightarrow> xs = as @ t # bs \<Longrightarrow> calc_step (set xs) s0 s \<Longrightarrow>
     \<exists>steps' res s'.
        improve_loop (Some t) imp steps s = Some (steps @ steps', res, s')
        \<and> calc_step (set xs) s0 s'
        \<and> (case res of
             Inr v \<Rightarrow> v = imp \<and> length steps' = Suc (length as) \<and> (\<forall>g\<in>set steps'. 0 \<le> g)
           | Inl e \<Rightarrow> (e = OverflowError \<or> e = RuntimeError) \<and> length steps' < Suc (length as))"
proof (induction as arbitrary: t bs s steps rule: rev_induct)
  case (Nil t bs s steps)
  have t: "t \<in> set xs" using Nil.prems(2) by simp
  from improvement_move_in_chain [OF Nil.prems(1) t Nil.prems(3)] obtain res1 s1
    where m: "improvement_move_in t True s = Some (res1, s1)"
      and cs: "calc_step (set xs) s0 s1"
      and q: "case res1 of Inr g \<Rightarrow> 0 \<le> g | Inl e \<Rightarrow> e = OverflowError \<or> e = RuntimeError"
    by (auto elim: endsE)
  show ?case
  proof (cases res1)
    case (Inl e)
    with m q cs have "improve_loop (Some t) imp steps s = Some (steps @ [], Inl e, s1)
        \<and> calc_step (set xs) s0 s1
        \<and> (e = OverflowError \<or> e = RuntimeError) \<and> length ([] :: int list) < Suc (length ([] :: nat list))"
      by (simp add: improve_step_raise)
    then show ?thesis by (intro exI [of _ "[]"] exI [of _ "Inl e"] exI [of _ s1]) simp
  next
    case (Inr g)
    have "chain s1 r ([] @ t # bs)" using Nil.prems(1,2) cs by (simp add: calc_step_chain)
    from chain_mid(2) [OF this] have "previous (tasks s1 t) = None" by (simp add: fold_fields)
    with m q Inr have "improve_loop (Some t) imp steps s = Some (steps @ [g], Inr imp, s1)"
      by (simp add: improve_step_back improve_stop)
    with q Inr cs show ?thesis
      by (intro exI [of _ "[g]"] exI [of _ "Inr imp"] exI [of _ s1]) simp
  qed
next
  case (snoc p as t bs s steps)
  have t: "t \<in> set xs" using snoc.prems(2) by simp
  from improvement_move_in_chain [OF snoc.prems(1) t snoc.prems(3)] obtain res1 s1
    where m: "improvement_move_in t True s = Some (res1, s1)"
      and cs: "calc_step (set xs) s0 s1"
      and q: "case res1 of Inr g \<Rightarrow> 0 \<le> g | Inl e \<Rightarrow> e = OverflowError \<or> e = RuntimeError"
    by (auto elim: endsE)
  show ?case
  proof (cases res1)
    case (Inl e)
    with m q cs have "improve_loop (Some t) imp steps s = Some (steps @ [], Inl e, s1)
        \<and> calc_step (set xs) s0 s1
        \<and> (e = OverflowError \<or> e = RuntimeError)"
      by (simp add: improve_step_raise)
    then show ?thesis by (intro exI [of _ "[]"] exI [of _ "Inl e"] exI [of _ s1]) simp
  next
    case (Inr g)
    have "chain s1 r ((as @ [p]) @ t # bs)"
      using snoc.prems(1,2) cs by (simp add: calc_step_chain)
    from chain_mid(2) [OF this] have pv: "previous (tasks s1 t) = Some p"
      by (simp add: fold_fields)
    have xs: "xs = as @ p # t # bs" using snoc.prems(2) by simp
    from snoc.IH [OF snoc.prems(1) xs cs, where steps = "steps @ [g]"] obtain steps' res s'
      where l: "improve_loop (Some p) imp (steps @ [g]) s1 = Some ((steps @ [g]) @ steps', res, s')"
        and cs': "calc_step (set xs) s0 s'"
        and q': "case res of
             Inr v \<Rightarrow> v = imp \<and> length steps' = Suc (length as) \<and> (\<forall>g\<in>set steps'. 0 \<le> g)
           | Inl e \<Rightarrow> (e = OverflowError \<or> e = RuntimeError) \<and> length steps' < Suc (length as)"
      by blast
    have "improve_loop (Some t) imp steps s = Some (steps @ (g # steps'), res, s')"
      using m q Inr pv l by (simp add: improve_step_back)
    moreover have "case res of
             Inr v \<Rightarrow> v = imp \<and> length (g # steps') = Suc (length (as @ [p]))
                \<and> (\<forall>g\<in>set (g # steps'). 0 \<le> g)
           | Inl e \<Rightarrow> (e = OverflowError \<or> e = RuntimeError)
                \<and> length (g # steps') < Suc (length (as @ [p]))"
      using q' q Inr by (cases res) simp_all
    ultimately show ?thesis using cs' by blast
  qed
qed

lemma improve_run_chain:
  assumes "chain s r xs"
  shows "\<exists>steps res s'.
        improve_run r s = Some (steps, res, s')
        \<and> calc_step (set xs) s s'
        \<and> (case res of
             Inr v \<Rightarrow> v = 0 \<and> length steps = length xs \<and> (\<forall>g\<in>set steps. 0 \<le> g)
           | Inl e \<Rightarrow> (e = OverflowError \<or> e = RuntimeError) \<and> length steps < length xs)"
proof (cases xs rule: rev_cases)
  case Nil
  with chain_ends(2) [OF assms] have "tails s r = None" by simp
  then have "improve_run r s = Some ([], Inr 0, s)"
    by (simp add: improve_run_def fold_fields)
  with Nil show ?thesis by simp
next
  case (snoc as t)
  with chain_ends(2) [OF assms] have "tails s r = Some t" by simp
  then have run: "improve_run r s = improve_loop (Some t) 0 [] s"
    by (simp add: improve_run_def fold_fields)
  have xs: "xs = as @ t # []" using snoc by simp
  from improve_loop_chain [OF assms xs calc_step_refl, of 0 "[]"] obtain steps res s'
    where l: "improve_loop (Some t) 0 [] s = Some (steps, res, s')"
      and cs: "calc_step (set xs) s s'"
      and q: "case res of
             Inr v \<Rightarrow> v = 0 \<and> length steps = Suc (length as) \<and> (\<forall>g\<in>set steps. 0 \<le> g)
           | Inl e \<Rightarrow> (e = OverflowError \<or> e = RuntimeError) \<and> length steps < Suc (length as)"
    by auto
  have "case res of
             Inr v \<Rightarrow> v = 0 \<and> length steps = length xs \<and> (\<forall>g\<in>set steps. 0 \<le> g)
           | Inl e \<Rightarrow> (e = OverflowError \<or> e = RuntimeError) \<and> length steps < length xs"
    using q snoc by (cases res) simp_all
  with l cs run show ?thesis by simp
qed

text \<open>Reading the total lateness of a clean chain.\<close>

lemma lateness_sum_clean:
  "clean_on s xs \<Longrightarrow> lateness_sum xs s = Some (sum_list (map (lateness s) xs))"
  by (induction xs) (simp_all add: clean_on_def start_clean ret_def lateness_def)

lemma total_lateness_clean:
  "chain s r xs \<Longrightarrow> clean_on s xs \<Longrightarrow>
     total_lateness r s = Some (sum_list (map (lateness s) xs))"
  by (simp add: total_lateness_def chain_iter_tasks lateness_sum_clean)

section \<open>The concrete stores\<close>

lemma queue_constructed:
  "c_int d1 \<Longrightarrow> c_int T1 \<Longrightarrow> c_int d2 \<Longrightarrow> c_int T2 \<Longrightarrow>
     two_tasks d1 T1 0 d2 T2 0 = Some (queue d1 T1 d2 T2)"
  by (simp add: two_tasks_def new_task_def SchedulingTask_init_def c_int_def queue_def)

lemma queue_AB_constructed: "two_tasks 5 0 0 1 0 0 = Some queue_AB"
  unfolding queue_AB_def by (rule queue_constructed) (simp_all add: c_int_def)

lemma queue_late_constructed: "two_tasks 10 0 0 1 7 0 = Some queue_late"
  unfolding queue_late_def by (rule queue_constructed) (simp_all add: c_int_def)

lemma queue_short_first_constructed: "two_tasks 1 0 0 5 0 0 = Some queue_short_first"
  unfolding queue_short_first_def by (rule queue_constructed) (simp_all add: c_int_def)

lemma chain_queue_AB: "scheduling_chain queue_AB 0 [0, 1]"
  by code_simp

lemma chain_queue_late: "scheduling_chain queue_late 0 [0, 1]"
  by code_simp


lemma scheduling_chainD: "scheduling_chain s r xs \<Longrightarrow> chain s r xs"
  by (simp add: scheduling_chain_def)

section \<open>Results\<close>

subsection \<open>Structural mutations of scheduling tasks\<close>

text \<open>
  Past the \<^verbatim>\<open>super()\<close> call the base method would not get through either: on the store
  of the next theorem \<^verbatim>\<open>Task.move_out\<close>, applied to the head, raises at
  \<^verbatim>\<open>self.resource.head = nxt\<close>, and no flag has been set.
\<close>

lemma base_move_out_raises:
  "result (Option.bind (scheduled (two_tasks 5 0 0 1 0 0)) (Task_move_out 0))
     = Some (Inl AttributeError)
   \<and> map_option (u_dirty \<circ> task_at 0)
        (after (Option.bind (scheduled (two_tasks 5 0 0 1 0 0)) (Task_move_out 0))) = Some False
   \<and> map_option (u_dirty \<circ> task_at 1)
        (after (Option.bind (scheduled (two_tasks 5 0 0 1 0 0)) (Task_move_out 0))) = Some False"
  by code_simp

text \<open>
  C1 (after a structural mutation at position \<open>i\<close> every task from \<open>i\<close> on is dirty; in
  particular \<^verbatim>\<open>t.move_out()\<close> swaps \<open>t\<close> with its successor and both are marked) is not
  what the code does. Resource 0 holds A (duration 5, target 0) then B (duration 1,
  target 0); after \<^verbatim>\<open>schedule()\<close> both are clean. The call \<^verbatim>\<open>A.move_out()\<close> raises
  \<^verbatim>\<open>RuntimeError\<close> at its \<^verbatim>\<open>super()\<close> call: the order is still A, B, the swap has not
  taken place, \<^verbatim>\<open>invalidate\<close> has not run, and both tasks are still clean.
\<close>

theorem move_out_raises_unmarked:
  "result (Option.bind (scheduled (two_tasks 5 0 0 1 0 0)) (call_move_out 0))
     = Some (Inl RuntimeError)
   \<and> Option.bind (scheduled (two_tasks 5 0 0 1 0 0)) (iter_tasks 0) = Some [0, 1]
   \<and> Option.bind (after (Option.bind (scheduled (two_tasks 5 0 0 1 0 0)) (call_move_out 0)))
        (iter_tasks 0) = Some [0, 1]
   \<and> map_option (u_dirty \<circ> task_at 0)
        (after (Option.bind (scheduled (two_tasks 5 0 0 1 0 0)) (call_move_out 0))) = Some False
   \<and> map_option (u_dirty \<circ> task_at 1)
        (after (Option.bind (scheduled (two_tasks 5 0 0 1 0 0)) (call_move_out 0))) = Some False"
  by code_simp

subsection \<open>The cache of a task without predecessor\<close>

text \<open>
  C2 (a clean task has \<open>start \<ge> earliest_start\<close>) fails for a task without predecessor.
  A freshly constructed task with target \<open>-5\<close> is dirty; reading \<^verbatim>\<open>start\<close> runs
  \<^verbatim>\<open>calculate()\<close>, which sets the earliest start to 0, clears the flag and leaves the
  start at \<open>-5\<close>.
\<close>

theorem calculate_head_not_clamped:
  "result (Option.bind (new_task 0 ''A'' 3 (- 5) 0 store0) (start 0)) = Some (Inr (- 5))
   \<and> map_option (u_dirty \<circ> task_at 0)
        (after (Option.bind (new_task 0 ''A'' 3 (- 5) 0 store0) (start 0))) = Some False
   \<and> map_option (u_earliest_start \<circ> task_at 0)
        (after (Option.bind (new_task 0 ''A'' 3 (- 5) 0 store0) (start 0))) = Some 0
   \<and> map_option (u_start \<circ> task_at 0)
        (after (Option.bind (new_task 0 ''A'' 3 (- 5) 0 store0) (start 0))) = Some (- 5)"
  by code_simp

subsection \<open>The backward sweep\<close>

text \<open>
  C3 as stated fails in two ways. On A (duration 5, target 0) then B (duration 1,
  target 0) \<^verbatim>\<open>schedule_backward\<close> returns and the tail B has start 5, not its target 0:
  the setter raises every start to the earliest start. On A (duration 2147483647)
  then B (margin 1) it does not return: storing B's earliest start raises
  \<^verbatim>\<open>OverflowError\<close>.
\<close>

theorem schedule_backward_tail_counterexample:
  "result (Option.bind (two_tasks 5 0 0 1 0 0) (schedule_backward 1)) = Some (Inr ())
   \<and> map_option (u_start \<circ> task_at 1)
        (after (Option.bind (two_tasks 5 0 0 1 0 0) (schedule_backward 1))) = Some 5
   \<and> map_option (u_target \<circ> task_at 1)
        (after (Option.bind (two_tasks 5 0 0 1 0 0) (schedule_backward 1))) = Some 0
   \<and> map_option (nxt \<circ> task_at 1)
        (after (Option.bind (two_tasks 5 0 0 1 0 0) (schedule_backward 1))) = Some None
   \<and> result (Option.bind (two_tasks 2147483647 0 0 1 0 1) (schedule_backward 1))
        = Some (Inl OverflowError)"
  by code_simp

text \<open>
  C3, amended: on every non-empty chain of scheduling tasks \<^verbatim>\<open>schedule_backward\<close>, run
  from the tail, ends. Either it raises \<^verbatim>\<open>OverflowError\<close>, or it returns and then every
  task of the chain is clean (so that reading \<^verbatim>\<open>start\<close> returns the stored value and
  changes nothing), the start of the tail is \<open>max earliest_start target\<close>, and the start
  of every other task is \<open>max earliest_start (min target (successor.start -
  successor.min_margin_before - duration))\<close>.
\<close>

theorem schedule_backward_clamped:
  assumes "scheduling_chain s r xs" and "xs \<noteq> []"
  shows "\<exists>res s'. schedule_backward (last xs) s = Some (res, s')
           \<and> (case res of
                Inr _ \<Rightarrow>
                  backward_ok s' xs
                  \<and> (\<forall>t\<in>set xs. \<not> u_dirty (tasks s' t)
                         \<and> start t s' = Some (Inr (u_start (tasks s' t)), s'))
              | Inl e \<Rightarrow> e = OverflowError)"
proof -
  from schedule_backward_chain [OF scheduling_chainD [OF assms(1)] assms(2)] obtain res s'
    where b: "schedule_backward (last xs) s = Some (res, s')"
      and q: "case res of
                Inr v \<Rightarrow> clean_on s' xs \<and> backward_ok s' xs
                   \<and> (\<forall>a\<in>set xs. c_int (u_start (tasks s' a)))
              | Inl e \<Rightarrow> e = OverflowError"
    by (auto elim: endsE)
  have "case res of
          Inr _ \<Rightarrow>
            backward_ok s' xs
            \<and> (\<forall>t\<in>set xs. \<not> u_dirty (tasks s' t)
                   \<and> start t s' = Some (Inr (u_start (tasks s' t)), s'))
        | Inl e \<Rightarrow> e = OverflowError"
    using q by (cases res) (auto simp: clean_on_def start_clean ret_def)
  with b show ?thesis by blast
qed

theorem schedule_backward_clamped_witness:
  "scheduling_chain queue_AB 0 [0, 1] \<and> [0, 1] \<noteq> ([] :: nat list)
   \<and> (\<exists>res s'. schedule_backward (last [0, 1]) queue_AB = Some (res, s')
           \<and> (case res of
                Inr _ \<Rightarrow>
                  backward_ok s' [0, 1]
                  \<and> (\<forall>t\<in>set [0, 1]. \<not> u_dirty (tasks s' t)
                         \<and> start t s' = Some (Inr (u_start (tasks s' t)), s'))
              | Inl e \<Rightarrow> e = OverflowError))
   \<and> result (schedule_backward (last [0, 1]) queue_AB) = Some (Inr ())"
proof -
  have h: "scheduling_chain queue_AB 0 [0, 1]" "[0, 1] \<noteq> ([] :: nat list)"
    by (rule chain_queue_AB) simp
  have r: "result (schedule_backward (last [0, 1]) queue_AB) = Some (Inr ())"
    by code_simp
  from schedule_backward_clamped [OF h] h r show ?thesis
    by blast
qed

subsection \<open>Scheduling twice\<close>

text \<open>
  C7: on every chain of scheduling tasks \<^verbatim>\<open>schedule()\<close> ends. It raises nothing but
  \<^verbatim>\<open>OverflowError\<close>; when it returns a score, a second call made at once returns the
  same score and leaves the store, hence every start, exactly as the first call left
  it.
\<close>

theorem schedule_idempotent:
  assumes "scheduling_chain s r xs"
  shows "\<exists>res s1. schedule r s = Some (res, s1)
           \<and> (case res of
                Inr v \<Rightarrow> schedule r s1 = Some (Inr v, s1)
              | Inl e \<Rightarrow> e = OverflowError)"
proof -
  from schedule_chain [OF scheduling_chainD [OF assms]] obtain res s1
    where b: "schedule r s = Some (res, s1)"
      and q: "case res of
                Inr v \<Rightarrow> clean_on s1 xs \<and> v = sum_list (map (lateness s1) xs)
                   \<and> schedule r s1 = Some (Inr v, s1)
              | Inl e \<Rightarrow> e = OverflowError"
    by (auto elim: endsE)
  have "case res of
          Inr v \<Rightarrow> schedule r s1 = Some (Inr v, s1)
        | Inl e \<Rightarrow> e = OverflowError"
    using q by (cases res) simp_all
  with b show ?thesis by blast
qed

theorem schedule_idempotent_witness:
  "scheduling_chain queue_AB 0 [0, 1]
   \<and> (\<exists>res s1. schedule 0 queue_AB = Some (res, s1)
           \<and> (case res of
                Inr v \<Rightarrow> schedule 0 s1 = Some (Inr v, s1)
              | Inl e \<Rightarrow> e = OverflowError))
   \<and> result (schedule 0 queue_AB) = Some (Inr 5)"
proof -
  have r: "result (schedule 0 queue_AB) = Some (Inr 5)"
    by code_simp
  from schedule_idempotent [OF chain_queue_AB] chain_queue_AB r show ?thesis
    by blast
qed

subsection \<open>Local search\<close>

text \<open>
  C4: on every chain of scheduling tasks on which \<^verbatim>\<open>schedule()\<close> returns a score, the
  total lateness of the resource is that score, and \<^verbatim>\<open>improve()\<close>, run next, ends and
  leaves the store exactly as \<^verbatim>\<open>schedule()\<close> left it: it returns 0, or it raises
  \<^verbatim>\<open>RuntimeError\<close> or \<^verbatim>\<open>OverflowError\<close>. So the total lateness afterwards is the score
  of \<^verbatim>\<open>schedule()\<close>, not more, and no exchange has been applied, with whatever gain.
\<close>

theorem improve_keeps_schedule:
  assumes "scheduling_chain s r xs"
  shows "\<exists>res s1. schedule r s = Some (res, s1)
           \<and> (case res of
                Inr v \<Rightarrow>
                  total_lateness r s1 = Some v
                  \<and> (\<exists>out. improve r s1 = Some (out, s1)
                         \<and> (out = Inr 0 \<or> out = Inl RuntimeError \<or> out = Inl OverflowError))
              | Inl e \<Rightarrow> e = OverflowError)"
proof -
  note c = scheduling_chainD [OF assms]
  from schedule_chain [OF c] obtain res s1
    where b: "schedule r s = Some (res, s1)"
      and t1: "timing_step (set xs) s s1"
      and q: "case res of
                Inr v \<Rightarrow> clean_on s1 xs \<and> v = sum_list (map (lateness s1) xs)
                   \<and> schedule r s1 = Some (Inr v, s1)
              | Inl e \<Rightarrow> e = OverflowError"
    by (auto elim: endsE)
  have c1: "chain s1 r xs" using c t1 by (simp add: timing_step_chain)
  have "case res of
          Inr v \<Rightarrow>
            total_lateness r s1 = Some v
            \<and> (\<exists>out. improve r s1 = Some (out, s1)
                   \<and> (out = Inr 0 \<or> out = Inl RuntimeError \<or> out = Inl OverflowError))
        | Inl e \<Rightarrow> e = OverflowError"
  proof (cases res)
    case (Inl e)
    with q show ?thesis by simp
  next
    case (Inr v)
    with q have cl: "clean_on s1 xs" and v: "v = sum_list (map (lateness s1) xs)"
      by simp_all
    from improve_run_chain [OF c1] obtain steps out s'
      where i: "improve_run r s1 = Some (steps, out, s')"
        and cs: "calc_step (set xs) s1 s'"
        and o: "case out of
             Inr w \<Rightarrow> w = 0 \<and> length steps = length xs \<and> (\<forall>g\<in>set steps. 0 \<le> g)
           | Inl e \<Rightarrow> (e = OverflowError \<or> e = RuntimeError) \<and> length steps < length xs"
      by blast
    have "s' = s1"
      using cs cl by (intro calc_step_same [of "set xs"]) (simp_all add: clean_on_def)
    with i have "improve r s1 = Some (out, s1)" by (simp add: improve_def)
    moreover have "out = Inr 0 \<or> out = Inl RuntimeError \<or> out = Inl OverflowError"
      using o by (cases out) auto
    moreover have "total_lateness r s1 = Some v"
      using total_lateness_clean [OF c1 cl] v by simp
    ultimately show ?thesis using Inr by simp
  qed
  with b show ?thesis by blast
qed

theorem improve_keeps_schedule_witness:
  "scheduling_chain queue_late 0 [0, 1]
   \<and> (\<exists>res s1. schedule 0 queue_late = Some (res, s1)
           \<and> (case res of
                Inr v \<Rightarrow>
                  total_lateness 0 s1 = Some v
                  \<and> (\<exists>out. improve 0 s1 = Some (out, s1)
                         \<and> (out = Inr 0 \<or> out = Inl RuntimeError \<or> out = Inl OverflowError))
              | Inl e \<Rightarrow> e = OverflowError))
   \<and> result (schedule 0 queue_late) = Some (Inr 3)
   \<and> result (Option.bind (after (schedule 0 queue_late)) (improve 0)) = Some (Inl RuntimeError)
   \<and> Option.bind (after (Option.bind (after (schedule 0 queue_late)) (improve 0)))
        (total_lateness 0) = Some 3"
proof -
  have r: "result (schedule 0 queue_late) = Some (Inr 3)"
    "result (Option.bind (after (schedule 0 queue_late)) (improve 0)) = Some (Inl RuntimeError)"
    "Option.bind (after (Option.bind (after (schedule 0 queue_late)) (improve 0)))
        (total_lateness 0) = Some 3"
    by code_simp+
  from improve_keeps_schedule [OF chain_queue_late] chain_queue_late r show ?thesis
    by blast
qed

text \<open>
  C5 as stated fails. On A (duration 5, target 0) then B (duration 1, target 0),
  scheduled, the gain that the code computes for the exchange putting B before A is
  \<open>-4\<close>, not \<open>-5\<close>; and \<^verbatim>\<open>improve()\<close> returns no value: it raises \<^verbatim>\<open>RuntimeError\<close> when it
  calls \<^verbatim>\<open>task.move_in()\<close>, and the order is still A, B with starts 0 and 5.
\<close>

theorem improve_example_counterexample:
  "result (Option.bind (scheduled (two_tasks 5 0 0 1 0 0)) (improvement_move_in 1 False))
     = Some (Inr (- 4))
   \<and> result (Option.bind (scheduled (two_tasks 5 0 0 1 0 0)) (improve 0))
     = Some (Inl RuntimeError)
   \<and> Option.bind (after (Option.bind (scheduled (two_tasks 5 0 0 1 0 0)) (improve 0)))
        (iter_tasks 0) = Some [0, 1]
   \<and> map_option (u_start \<circ> task_at 0)
        (after (Option.bind (scheduled (two_tasks 5 0 0 1 0 0)) (improve 0))) = Some 0
   \<and> map_option (u_start \<circ> task_at 1)
        (after (Option.bind (scheduled (two_tasks 5 0 0 1 0 0)) (improve 0))) = Some 5"
  by code_simp

text \<open>
  C5, amended: on that input \<^verbatim>\<open>schedule()\<close> returns 5 (lateness is measured on starts:
  A starts at 0 and B at 5, total lateness 5), and the gain of the exchange that puts
  B before A, as \<^verbatim>\<open>improvement_move_in\<close> computes it, is exactly \<open>-4\<close>: it is negative, so
  the exchange is detected as an improvement.
\<close>

theorem improve_example:
  "result (Option.bind (two_tasks 5 0 0 1 0 0) (schedule 0)) = Some (Inr 5)
   \<and> map_option (u_start \<circ> task_at 0) (scheduled (two_tasks 5 0 0 1 0 0)) = Some 0
   \<and> map_option (u_start \<circ> task_at 1) (scheduled (two_tasks 5 0 0 1 0 0)) = Some 5
   \<and> Option.bind (scheduled (two_tasks 5 0 0 1 0 0)) (total_lateness 0) = Some 5
   \<and> result (Option.bind (scheduled (two_tasks 5 0 0 1 0 0)) (improvement_move_in 1 False))
     = Some (Inr (- 4))"
  by code_simp



subsection \<open>The link invariant\<close>

text \<open>
  C8 (after any sequence of attach, insert, drop and exchange operations the walk from
  \<^verbatim>\<open>head\<close> and the walk from \<^verbatim>\<open>tail\<close> are reverses of each other) fails. Resource 0
  holds the plain tasks A then B, attached with \<^verbatim>\<open>add_tail\<close>: the walks are A, B and
  B, A. The call \<^verbatim>\<open>A.move_out()\<close> sets \<^verbatim>\<open>B.previous\<close> to \<^verbatim>\<open>None\<close> and then raises
  \<^verbatim>\<open>AttributeError\<close> at \<^verbatim>\<open>self.resource.head = nxt\<close>. Afterwards the walk from \<^verbatim>\<open>head\<close>
  is still A, B, and the walk from \<^verbatim>\<open>tail\<close> is B alone.
\<close>

theorem move_out_breaks_links:
  "iter_tasks 0 two_plain_tasks = Some [0, 1]
   \<and> iter_back 0 two_plain_tasks = Some [1, 0]
   \<and> result (call_move_out 0 two_plain_tasks) = Some (Inl AttributeError)
   \<and> Option.bind (after (call_move_out 0 two_plain_tasks)) (iter_tasks 0) = Some [0, 1]
   \<and> Option.bind (after (call_move_out 0 two_plain_tasks)) (iter_back 0) = Some [1]
   \<and> map_option (previous \<circ> task_at 1) (after (call_move_out 0 two_plain_tasks)) = Some None
   \<and> map_option (nxt \<circ> task_at 0) (after (call_move_out 0 two_plain_tasks)) = Some (Some 1)"
  by code_simp

text \<open>
  The other operations that reach a write of \<^verbatim>\<open>head\<close> or \<^verbatim>\<open>tail\<close> through
  \<^verbatim>\<open>self.resource\<close> stop there too: \<^verbatim>\<open>B.move_in()\<close>, \<^verbatim>\<open>B.drop()\<close> and \<^verbatim>\<open>A.drop()\<close> on
  the same store, and \<^verbatim>\<open>A.insert(C)\<close> for a detached task C.
\<close>

lemma link_writes_raise:
  "result (call_move_in 1 two_plain_tasks) = Some (Inl AttributeError)
   \<and> result (call_drop 1 two_plain_tasks) = Some (Inl AttributeError)
   \<and> result (call_drop 0 two_plain_tasks) = Some (Inl AttributeError)
   \<and> result (call_insert 0 2 (new_plain_task 2 ''C'' two_plain_tasks))
        = Some (Inl AttributeError)"
  by code_simp

subsection \<open>The constructor\<close>

text \<open>
  C9 as stated fails: a negative duration and a negative margin are accepted, and the
  task holds them.
\<close>

theorem init_negative_counterexample:
  "SchedulingTask_init ''A'' (- 3) 0 (- 2) =
     Inr \<lparr>task_id = ''A'', nxt = None, previous = None, resource = None,
          u_duration = - 3, u_target = 0, u_min_margin_before = - 2,
          u_dirty = True, u_earliest_start = 0, u_start = 0\<rparr>"
  by (simp add: SchedulingTask_init_def c_int_def)

text \<open>
  C9, amended: the constructor does not look at the sign of its arguments. Whenever the
  three numbers fit a C \<^verbatim>\<open>int\<close>, negative or not, it returns a dirty, detached task
  holding them, with start equal to the target and earliest start 0.
\<close>

theorem init_accepts_c_int:
  assumes "c_int d" and "c_int T" and "c_int m"
  shows "\<exists>t. SchedulingTask_init tid d T m = Inr t
            \<and> u_duration t = d \<and> u_target t = T \<and> u_min_margin_before t = m
            \<and> u_start t = T \<and> u_earliest_start t = 0 \<and> u_dirty t
            \<and> nxt t = None \<and> previous t = None \<and> resource t = None"
  using assms by (simp add: SchedulingTask_init_def)

theorem init_accepts_c_int_witness:
  "c_int (- 3) \<and> c_int 0 \<and> c_int (- 2)
   \<and> (\<exists>t. SchedulingTask_init ''A'' (- 3) 0 (- 2) = Inr t
            \<and> u_duration t = - 3 \<and> u_target t = 0 \<and> u_min_margin_before t = - 2
            \<and> u_start t = 0 \<and> u_earliest_start t = 0 \<and> u_dirty t
            \<and> nxt t = None \<and> previous t = None \<and> resource t = None)"
proof -
  have h: "c_int (- 3)" "c_int 0" "c_int (- 2)"
    by (simp_all add: c_int_def)
  from init_accepts_c_int [OF h, of "''A''"] h show ?thesis
    by blast
qed

subsection \<open>The empty resource\<close>

text \<open>
  C10: on a resource without tasks (\<^verbatim>\<open>head\<close> and \<^verbatim>\<open>tail\<close> both \<^verbatim>\<open>None\<close>), \<^verbatim>\<open>schedule()\<close>
  returns 0 and \<^verbatim>\<open>improve()\<close> returns 0, and neither changes the store.
\<close>

theorem empty_resource:
  assumes "head (resources s r) = None" and "tail (resources s r) = None"
  shows "schedule r s = Some (Inr 0, s) \<and> improve r s = Some (Inr 0, s)"
  using assms by (simp add: schedule_def improve_def improve_run_def ret_def bind_o_def)

theorem empty_resource_witness:
  "head (resources store0 0) = None \<and> tail (resources store0 0) = None
   \<and> schedule 0 store0 = Some (Inr 0, store0) \<and> improve 0 store0 = Some (Inr 0, store0)"
proof -
  have h: "head (resources store0 0) = None" "tail (resources store0 0) = None"
    by (simp_all add: store0_def Resource_init_def)
  from empty_resource [OF h] h show ?thesis
    by blast
qed

end
